theory Spec2Isabelle
  imports Main "HOL-Library.Word"
begin

section \<open>The free store\<close>

text \<open>
  \<^verbatim>\<open>LinkedList<T>\<close> (LinkedList.h) keeps its nodes on the free store and links them with
  \<^verbatim>\<open>std::unique_ptr<Node>\<close>. The store is modelled explicitly: an address is an index
  into a list of cells, a cell is \<open>Some n\<close> while the node \<open>n\<close> is alive and \<open>None\<close>
  once it has been released, and a \<^verbatim>\<open>unique_ptr\<close> or raw pointer is an
  \<open>addr option\<close> with \<open>None\<close> for \<^verbatim>\<open>nullptr\<close>.
\<close>

type_synonym addr = nat

text \<open>\<^verbatim>\<open>struct Node { T element; std::unique_ptr<Node> ptrNext; }\<close>\<close>

record 'a Node =
  element :: 'a
  ptrNext :: "addr option"

text \<open>\<^verbatim>\<open>class LinkedList\<close>: its only data member is \<^verbatim>\<open>ptrHead\<close>.\<close>

record LinkedList =
  ptrHead :: "addr option"

text \<open>
  Everything outside the list object that the member functions touch: the free store,
  the text written to \<^verbatim>\<open>std::cout\<close> (the node destructor prints there), and one
  instrumentation field, \<open>dtor_depth\<close>: the greatest number of \<^verbatim>\<open>~Node()\<close>
  activations that have been nested inside one another so far. The field is only ever
  written by \<open>dispose\<close> below and never read by the program.
\<close>

record 'a world =
  store :: "'a Node option list"
  cout :: string
  dtor_depth :: nat

text \<open>The only exception of the program: \<^verbatim>\<open>std::out_of_range\<close>, thrown by \<^verbatim>\<open>peek()\<close>.\<close>

datatype error = EmptyContainer

text \<open>
  Reading through a pointer. An address outside the store or of a released cell gives
  \<open>None\<close>; every operation below that dereferences such a pointer has no defined
  behaviour and returns \<open>None\<close> itself.
\<close>

definition lookup :: "'a world \<Rightarrow> addr \<Rightarrow> 'a Node option" where
  "lookup w a = (if a < length (store w) then store w ! a else None)"

text \<open>Writing a node back through a pointer (used only after a successful \<open>lookup\<close>).\<close>

definition put :: "'a world \<Rightarrow> addr \<Rightarrow> 'a Node \<Rightarrow> 'a world" where
  "put w a n = w\<lparr>store := (store w)[a := Some n]\<rparr>"

text \<open>Releasing the storage of a node.\<close>

definition free :: "'a world \<Rightarrow> addr \<Rightarrow> 'a world" where
  "free w a = w\<lparr>store := (store w)[a := None]\<rparr>"

text \<open>
  \<^verbatim>\<open>std::make_unique<Node>(data)\<close> with the constructor
  \<^verbatim>\<open>Node(const T& data) : element{data}, ptrNext{nullptr}\<close>: a new cell at an address
  that no live or released node has. Allocation failure is not modelled.
\<close>

definition make_unique :: "'a \<Rightarrow> 'a world \<Rightarrow> addr \<times> 'a world" where
  "make_unique data w =
     (length (store w), w\<lparr>store := store w @ [Some \<lparr>element = data, ptrNext = None\<rparr>]\<rparr>)"

text \<open>The number of live nodes; it is the termination measure of the destruction loops.\<close>

definition live :: "'a world \<Rightarrow> nat" where
  "live w = card {a. lookup w a \<noteq> None}"

text \<open>\<^verbatim>\<open>std::endl\<close> writes a newline.\<close>

definition endl :: string where
  "endl = [CHR 0x0A]"

section \<open>Node destruction\<close>

text \<open>
  \<^verbatim>\<open>~Node() { std::cout << "Destroying Node with data " << element << std::endl; }\<close>
  The element is written with its \<^verbatim>\<open>operator<<\<close>, the parameter \<open>sh\<close> of the model.
\<close>

definition destroy_msg :: "('a \<Rightarrow> string) \<Rightarrow> 'a Node \<Rightarrow> string" where
  "destroy_msg sh n = ''Destroying Node with data '' @ sh (element n) @ endl"

text \<open>
  \<^verbatim>\<open>delete\<close> on a \<^verbatim>\<open>Node*\<close>, as the deleter of \<^verbatim>\<open>unique_ptr\<close> does it: the destructor
  body prints, then the member \<^verbatim>\<open>ptrNext\<close> is destroyed, which deletes the node it
  still owns (one more destructor activation on top of this one), and the storage is
  released. The result carries the number of destructor activations that were nested at
  the deepest point of the call. The cell is retired as its destructor starts, where
  the lifetime of the node ends, so a chain of links that runs back into a node under
  destruction has no defined behaviour (\<open>None\<close>), as a second \<^verbatim>\<open>delete\<close> of it has
  none in C++.
\<close>

function delete_node ::
  "('a \<Rightarrow> string) \<Rightarrow> addr \<Rightarrow> 'a world \<Rightarrow> ('a world \<times> nat) option" where
  "delete_node sh a w =
     (case lookup w a of
        None \<Rightarrow> None
      | Some n \<Rightarrow>
          (let w1 = free (w\<lparr>cout := cout w @ destroy_msg sh n\<rparr>) a in
           case ptrNext n of
             None \<Rightarrow> Some (w1, 1)
           | Some b \<Rightarrow>
               (case delete_node sh b w1 of
                  None \<Rightarrow> None
                | Some (w2, d) \<Rightarrow> Some (w2, Suc d))))"
  by pat_completeness auto
termination
proof (relation "measure (\<lambda>(sh, a, w). live w)")
  show "wf (measure (\<lambda>(sh, a, w). live w))"
    by simp
next
  fix sh :: "'a \<Rightarrow> string" and a :: addr and w :: "'a world" and n w1 b
  assume a: "lookup w a = Some n"
    and w1: "w1 = free (w\<lparr>cout := cout w @ destroy_msg sh n\<rparr>) a"
  have fin: "finite {x. lookup w x \<noteq> None}"
    by (rule finite_subset [of _ "{..<length (store w)}"])
      (auto simp: lookup_def split: if_splits)
  have eq: "{x. lookup w1 x \<noteq> None} = {x. lookup w x \<noteq> None} - {a}"
    using a by (auto simp: w1 lookup_def free_def nth_list_update split: if_splits)
  have mem: "a \<in> {x. lookup w x \<noteq> None}"
    using a by simp
  have "card ({x. lookup w x \<noteq> None} - {a}) < card {x. lookup w x \<noteq> None}"
    by (rule card_Diff1_less [OF fin mem])
  then have "live w1 < live w"
    unfolding live_def eq .
  then show "((sh, b, w1), (sh, a, w)) \<in> measure (\<lambda>(sh, a, w). live w)"
    by simp
qed

text \<open>
  What \<^verbatim>\<open>unique_ptr::reset\<close> does with the pointer it held before: nothing for
  \<^verbatim>\<open>nullptr\<close>, \<^verbatim>\<open>delete\<close> otherwise. The depth of that \<^verbatim>\<open>delete\<close> is recorded in
  \<open>dtor_depth\<close>.
\<close>

definition dispose :: "('a \<Rightarrow> string) \<Rightarrow> addr option \<Rightarrow> 'a world \<Rightarrow> 'a world option" where
  "dispose sh p w =
     (case p of
        None \<Rightarrow> Some w
      | Some a \<Rightarrow>
          (case delete_node sh a w of
             None \<Rightarrow> None
           | Some (w', d) \<Rightarrow> Some (w'\<lparr>dtor_depth := max (dtor_depth w') d\<rparr>)))"

section \<open>The member functions of LinkedList\<close>

text \<open>
  A member function takes the list object and the world and returns both, updated; a
  \<^verbatim>\<open>const\<close> member returns them as they were. The result is wrapped in \<open>option\<close>:
  \<open>None\<close> stands for a run with no defined result (a released node is dereferenced, or
  a traversal never reaches \<^verbatim>\<open>nullptr\<close>).
\<close>

text \<open>\<^verbatim>\<open>LinkedList() : ptrHead{nullptr} {}\<close>\<close>

definition LinkedList_default :: LinkedList where
  "LinkedList_default = \<lparr>ptrHead = None\<rparr>"

text \<open>
  \<^verbatim>\<open>push\<close>: \<^verbatim>\<open>ptrTemp\<close> is a new node holding \<open>data\<close>;
  \<^verbatim>\<open>ptrTemp->ptrNext = std::move(ptrHead)\<close> writes the old head pointer into it (the link
  held \<^verbatim>\<open>nullptr\<close> since the node was made, so the assignment deletes nothing) and
  empties \<^verbatim>\<open>ptrHead\<close>; \<^verbatim>\<open>ptrHead = std::move(ptrTemp)\<close> then makes the new node the head.
\<close>

definition push :: "'a \<Rightarrow> LinkedList \<Rightarrow> 'a world \<Rightarrow> LinkedList \<times> 'a world" where
  "push data l w =
     (case make_unique data w of
        (ptrTemp, w1) \<Rightarrow>
          (l\<lparr>ptrHead := Some ptrTemp\<rparr>,
           put w1 ptrTemp \<lparr>element = data, ptrNext = ptrHead l\<rparr>))"

text \<open>
  The statement \<^verbatim>\<open>ptrHead = std::move(ptrHead->ptrNext);\<close> of \<^verbatim>\<open>pop\<close> and \<^verbatim>\<open>clean\<close>.
  Move assignment of \<^verbatim>\<open>unique_ptr\<close> is \<^verbatim>\<open>reset(r.release())\<close>: the head node's
  \<^verbatim>\<open>ptrNext\<close> is set to \<^verbatim>\<open>nullptr\<close> and its old value becomes the new \<^verbatim>\<open>ptrHead\<close>;
  then the old head node is deleted. The deleter is the stateless
  \<^verbatim>\<open>std::default_delete\<close>; its assignment, which follows the reset, is not modelled.
  Both callers test \<^verbatim>\<open>ptrHead\<close> first; with a null head the statement would dereference
  \<^verbatim>\<open>nullptr\<close>.
\<close>

definition move_head_next ::
  "('a \<Rightarrow> string) \<Rightarrow> LinkedList \<Rightarrow> 'a world \<Rightarrow> (LinkedList \<times> 'a world) option" where
  "move_head_next sh l w =
     (case ptrHead l of
        None \<Rightarrow> None
      | Some a \<Rightarrow>
          (case lookup w a of
             None \<Rightarrow> None
           | Some n \<Rightarrow>
               (case dispose sh (Some a) (put w a (n\<lparr>ptrNext := None\<rparr>)) of
                  None \<Rightarrow> None
                | Some w' \<Rightarrow> Some (l\<lparr>ptrHead := ptrNext n\<rparr>, w'))))"

definition pop ::
  "('a \<Rightarrow> string) \<Rightarrow> LinkedList \<Rightarrow> 'a world \<Rightarrow> (LinkedList \<times> 'a world) option" where
  "pop sh l w = (if ptrHead l = None then Some (l, w) else move_head_next sh l w)"

definition peek ::
  "LinkedList \<Rightarrow> 'a world \<Rightarrow> ((error + 'a) \<times> LinkedList \<times> 'a world) option" where
  "peek l w =
     (case ptrHead l of
        None \<Rightarrow> Some (Inl EmptyContainer, l, w)
      | Some a \<Rightarrow>
          (case lookup w a of
             None \<Rightarrow> None
           | Some n \<Rightarrow> Some (Inr (element n), l, w)))"

text \<open>\<^verbatim>\<open>clean\<close>: \<^verbatim>\<open>while (ptrHead) { ptrHead = std::move(ptrHead->ptrNext); }\<close>\<close>

function clean ::
  "('a \<Rightarrow> string) \<Rightarrow> LinkedList \<Rightarrow> 'a world \<Rightarrow> (LinkedList \<times> 'a world) option" where
  "clean sh l w =
     (if ptrHead l = None then Some (l, w)
      else
        (case move_head_next sh l w of
           None \<Rightarrow> None
         | Some (l', w') \<Rightarrow> clean sh l' w'))"
  by pat_completeness auto
termination
proof (relation "measure (\<lambda>(sh, l, w). live w)")
  show "wf (measure (\<lambda>(sh, l, w). live w))"
    by simp
next
  fix sh :: "'a \<Rightarrow> string" and l :: LinkedList and w :: "'a world" and x l' w'
  assume step: "move_head_next sh l w = Some x" and x: "(l', w') = x"
  from step x obtain a n where a: "lookup w a = Some n"
    and d: "dispose sh (Some a) (put w a (n\<lparr>ptrNext := None\<rparr>)) = Some w'"
    by (auto simp: move_head_next_def split: option.splits)
  have la: "lookup (put w a (n\<lparr>ptrNext := None\<rparr>)) a = Some (n\<lparr>ptrNext := None\<rparr>)"
    using a by (auto simp: lookup_def put_def split: if_splits)
  have st: "store w' = (store w)[a := None]"
    using d la by (auto simp: dispose_def put_def free_def)
  have fin: "finite {x. lookup w x \<noteq> None}"
    by (rule finite_subset [of _ "{..<length (store w)}"])
      (auto simp: lookup_def split: if_splits)
  have eq: "{x. lookup w' x \<noteq> None} = {x. lookup w x \<noteq> None} - {a}"
    using a by (auto simp: st lookup_def nth_list_update split: if_splits)
  have mem: "a \<in> {x. lookup w x \<noteq> None}"
    using a by simp
  have "card ({x. lookup w x \<noteq> None} - {a}) < card {x. lookup w x \<noteq> None}"
    by (rule card_Diff1_less [OF fin mem])
  then have "live w' < live w"
    unfolding live_def eq .
  then show "((sh, l', w'), (sh, l, w)) \<in> measure (\<lambda>(sh, l, w). live w)"
    by simp
qed

text \<open>
  \<^verbatim>\<open>print\<close>: the loop over the raw pointer \<^verbatim>\<open>ptrCursor\<close>, then
  \<^verbatim>\<open>os << "NULL" << std::endl\<close>. The stream \<open>os\<close> is passed in and returned with the
  text appended. The loop ends only when the cursor reaches \<^verbatim>\<open>nullptr\<close>.
\<close>

partial_function (option) print_loop ::
  "('a \<Rightarrow> string) \<Rightarrow> 'a world \<Rightarrow> addr option \<Rightarrow> string \<Rightarrow> string option" where
  "print_loop sh w ptrCursor os =
     (case ptrCursor of
        None \<Rightarrow> Some os
      | Some c \<Rightarrow>
          (case lookup w c of
             None \<Rightarrow> None
           | Some n \<Rightarrow> print_loop sh w (ptrNext n) (os @ sh (element n) @ '' -> '')))"

definition print ::
  "('a \<Rightarrow> string) \<Rightarrow> LinkedList \<Rightarrow> 'a world \<Rightarrow> string
     \<Rightarrow> (string \<times> LinkedList \<times> 'a world) option" where
  "print sh l w os =
     (case print_loop sh w (ptrHead l) os of
        None \<Rightarrow> None
      | Some os' \<Rightarrow> Some (os' @ ''NULL'' @ endl, l, w))"

text \<open>
  The loop of the copy constructor, over \<^verbatim>\<open>ptrNewHead\<close>, \<^verbatim>\<open>ptrCurrNode\<close> and
  \<^verbatim>\<open>ptrCursor\<close>. A node is allocated for the element under the cursor; it becomes the
  new head when there is none yet, and otherwise it is move-assigned to
  \<^verbatim>\<open>ptrCurrNode->ptrNext\<close>, which disposes of whatever that link held; the cursor then
  follows the \<^verbatim>\<open>ptrNext\<close> of its node as the store is at that point.
\<close>

partial_function (option) copy_loop ::
  "('a \<Rightarrow> string) \<Rightarrow> 'a world \<Rightarrow> addr option \<Rightarrow> addr option \<Rightarrow> addr option
     \<Rightarrow> ('a world \<times> addr option) option" where
  "copy_loop sh w ptrNewHead ptrCurrNode ptrCursor =
     (case ptrCursor of
        None \<Rightarrow> Some (w, ptrNewHead)
      | Some c \<Rightarrow>
          (case lookup w c of
             None \<Rightarrow> None
           | Some n \<Rightarrow>
               (case make_unique (element n) w of
                  (ptrTemp, w1) \<Rightarrow>
                    (if ptrNewHead = None then
                       (case lookup w1 c of
                          None \<Rightarrow> None
                        | Some n' \<Rightarrow>
                            copy_loop sh w1 (Some ptrTemp) (Some ptrTemp) (ptrNext n'))
                     else
                       (case ptrCurrNode of
                          None \<Rightarrow> None
                        | Some k \<Rightarrow>
                            (case lookup w1 k of
                               None \<Rightarrow> None
                             | Some m \<Rightarrow>
                                 (case dispose sh (ptrNext m)
                                         (put w1 k (m\<lparr>ptrNext := Some ptrTemp\<rparr>)) of
                                    None \<Rightarrow> None
                                  | Some w2 \<Rightarrow>
                                      (case lookup w2 c of
                                         None \<Rightarrow> None
                                       | Some n' \<Rightarrow>
                                           copy_loop sh w2 ptrNewHead (Some ptrTemp)
                                             (ptrNext n')))))))))"

text \<open>
  \<^verbatim>\<open>LinkedList(LinkedList& list)\<close>: the result is the new object, the source object
  (passed by non-const reference, so it is returned as well) and the world.
  \<^verbatim>\<open>ptrHead = std::move(ptrNewHead)\<close> assigns to a member that is still \<^verbatim>\<open>nullptr\<close>.
\<close>

definition LinkedList_copy ::
  "('a \<Rightarrow> string) \<Rightarrow> LinkedList \<Rightarrow> 'a world
     \<Rightarrow> (LinkedList \<times> LinkedList \<times> 'a world) option" where
  "LinkedList_copy sh list w =
     (case copy_loop sh w None None (ptrHead list) of
        None \<Rightarrow> None
      | Some (w', ptrNewHead) \<Rightarrow> Some (\<lparr>ptrHead = ptrNewHead\<rparr>, list, w'))"

text \<open>
  \<^verbatim>\<open>LinkedList(LinkedList&& list) { ptrHead = std::move(list.ptrHead); }\<close>: the result
  is the new object, the source object and the world.
\<close>

definition LinkedList_move ::
  "LinkedList \<Rightarrow> 'a world \<Rightarrow> LinkedList \<times> LinkedList \<times> 'a world" where
  "LinkedList_move list w = (\<lparr>ptrHead = ptrHead list\<rparr>, list\<lparr>ptrHead := None\<rparr>, w)"

section \<open>Callers\<close>

text \<open>Pushing the values of a list in order, and popping \<open>k\<close> times.\<close>

fun push_all :: "'a list \<Rightarrow> LinkedList \<Rightarrow> 'a world \<Rightarrow> LinkedList \<times> 'a world" where
  "push_all [] l w = (l, w)"
| "push_all (v # vs) l w = (case push v l w of (l', w') \<Rightarrow> push_all vs l' w')"

fun pop_times ::
  "('a \<Rightarrow> string) \<Rightarrow> nat \<Rightarrow> LinkedList \<Rightarrow> 'a world \<Rightarrow> (LinkedList \<times> 'a world) option" where
  "pop_times sh 0 l w = Some (l, w)"
| "pop_times sh (Suc k) l w =
     (case pop sh l w of
        None \<Rightarrow> None
      | Some (l', w') \<Rightarrow> pop_times sh k l' w')"

text \<open>An arbitrary sequence of \<^verbatim>\<open>push\<close> and \<^verbatim>\<open>pop\<close> calls on one list.\<close>

datatype 'a mutation = Push 'a | Pop

fun mutate ::
  "('a \<Rightarrow> string) \<Rightarrow> 'a mutation \<Rightarrow> LinkedList \<Rightarrow> 'a world
     \<Rightarrow> (LinkedList \<times> 'a world) option" where
  "mutate sh (Push v) l w = Some (push v l w)"
| "mutate sh Pop l w = pop sh l w"

fun mutate_all ::
  "('a \<Rightarrow> string) \<Rightarrow> 'a mutation list \<Rightarrow> LinkedList \<Rightarrow> 'a world
     \<Rightarrow> (LinkedList \<times> 'a world) option" where
  "mutate_all sh [] l w = Some (l, w)"
| "mutate_all sh (m # ms) l w =
     (case mutate sh m l w of
        None \<Rightarrow> None
      | Some (l', w') \<Rightarrow> mutate_all sh ms l' w')"

text \<open>
  \<^verbatim>\<open>operator<<\<close> for the \<^verbatim>\<open>int\<close> elements of the driver (\<^verbatim>\<open>LinkedList<int>\<close>, 32 bits):
  decimal digits, with a minus sign for a negative value.
\<close>

fun show_nat :: "nat \<Rightarrow> string" where
  "show_nat n =
     (if n < 10 then [''0123456789'' ! n]
      else show_nat (n div 10) @ [''0123456789'' ! (n mod 10)])"

definition show_int :: "32 word \<Rightarrow> string" where
  "show_int i =
     (if sint i < 0 then CHR ''-'' # show_nat (nat (- sint i)) else show_nat (nat (sint i)))"

section \<open>The sequence a list holds\<close>

text \<open>
  \<open>chain w p cs\<close>: following the links from \<open>p\<close> visits exactly the live nodes at the
  addresses \<open>map fst cs\<close>, in this order, holding the values \<open>map snd cs\<close>, and then
  reaches \<^verbatim>\<open>nullptr\<close>. \<open>owns w l cs\<close> says so of the list object \<open>l\<close>. The pointer
  determines the sequence (\<open>chain_unique\<close>) and no node occurs twice in it
  (\<open>chain_distinct\<close>). The default constructor gives a list that owns the empty chain in
  every world, and each member function takes a list that owns a chain to lists that own
  chains (\<open>owns_push\<close>, \<open>owns_pop\<close>, \<open>clean_owns\<close>, \<open>LinkedList_copy_owns\<close>).
\<close>

primrec chain :: "'a world \<Rightarrow> addr option \<Rightarrow> (addr \<times> 'a) list \<Rightarrow> bool" where
  "chain w p [] = (p = None)"
| "chain w p (c # cs) =
     (p = Some (fst c) \<and>
      (case lookup w (fst c) of
         None \<Rightarrow> False
       | Some n \<Rightarrow> element n = snd c \<and> chain w (ptrNext n) cs))"

definition owns :: "'a world \<Rightarrow> LinkedList \<Rightarrow> (addr \<times> 'a) list \<Rightarrow> bool" where
  "owns w l cs = chain w (ptrHead l) cs"

text \<open>What \<^verbatim>\<open>print\<close> writes for a sequence of values.\<close>

definition render :: "('a \<Rightarrow> string) \<Rightarrow> 'a list \<Rightarrow> string" where
  "render sh vs = concat (map (\<lambda>v. sh v @ '' -> '') vs) @ ''NULL'' @ endl"

text \<open>The stack that a sequence of mutations leaves, on plain lists.\<close>

fun stack_after :: "'a mutation list \<Rightarrow> 'a list \<Rightarrow> 'a list" where
  "stack_after [] vs = vs"
| "stack_after (Push v # ms) vs = stack_after ms (v # vs)"
| "stack_after (Pop # ms) vs = stack_after ms (tl vs)"

declare show_nat.simps [simp del]

declare print_loop.simps [code]

declare copy_loop.simps [code]

section \<open>Reading and writing the store\<close>

text \<open>What a read returns after a write, and what a chain depends on.\<close>

lemma lookup_Some_less: "lookup w a = Some n \<Longrightarrow> a < length (store w)"
  by (simp add: lookup_def split: if_splits)

lemma lookup_put: "lookup (put w a n) b = (if b = a \<and> a < length (store w) then Some n else lookup w b)"
  by (simp add: lookup_def put_def)

lemma lookup_free: "lookup (free w a) b = (if b = a then None else lookup w b)"
  by (simp add: lookup_def free_def)

lemma lookup_cout_update: "lookup (w\<lparr>cout := s\<rparr>) a = lookup w a"
  by (simp add: lookup_def)

lemma lookup_depth_update: "lookup (w\<lparr>dtor_depth := d\<rparr>) a = lookup w a"
  by (simp add: lookup_def)

lemma push_eq:
  "push v l w =
     (l\<lparr>ptrHead := Some (length (store w))\<rparr>,
      w\<lparr>store := store w @ [Some \<lparr>element = v, ptrNext = ptrHead l\<rparr>]\<rparr>)"
  by (simp add: push_def make_unique_def put_def)

lemma lookup_append:
  "lookup (w\<lparr>store := store w @ [c]\<rparr>) a = (if a = length (store w) then c else lookup w a)"
  by (simp add: lookup_def nth_append)

lemma chain_frame:
  "chain w p cs \<Longrightarrow> (\<And>a. a \<in> fst ` set cs \<Longrightarrow> lookup w' a = lookup w a) \<Longrightarrow> chain w' p cs"
  by (induction cs arbitrary: p) (auto split: option.splits)

lemma chain_less: "chain w p cs \<Longrightarrow> a \<in> fst ` set cs \<Longrightarrow> a < length (store w)"
  by (induction cs arbitrary: p) (auto split: option.splits dest: lookup_Some_less)

lemma chain_unique: "chain w p cs \<Longrightarrow> chain w p cs' \<Longrightarrow> cs = cs'"
proof (induction cs arbitrary: p cs')
  case Nil
  then show ?case by (cases cs') auto
next
  case (Cons c cs)
  then show ?case
    by (cases cs') (auto split: option.splits simp: prod_eq_iff)
qed

lemma chain_drop: "chain w p (xs @ y # ys) \<Longrightarrow> chain w (Some (fst y)) (y # ys)"
proof (induction xs arbitrary: p)
  case Nil
  then show ?case by simp
next
  case (Cons x xs)
  from Cons.prems obtain n where "lookup w (fst x) = Some n"
    and rest: "chain w (ptrNext n) (xs @ y # ys)"
    by (auto split: option.splits)
  from rest show ?case by (rule Cons.IH)
qed

lemma chain_distinct: "chain w p cs \<Longrightarrow> distinct (map fst cs)"
proof (induction cs arbitrary: p)
  case Nil
  then show ?case by simp
next
  case (Cons c cs)
  from Cons.prems obtain n where n: "lookup w (fst c) = Some n"
    and tl: "chain w (ptrNext n) cs"
    by (auto split: option.splits)
  have "fst c \<notin> fst ` set cs"
  proof
    assume "fst c \<in> fst ` set cs"
    then obtain y where "y \<in> set cs" and y: "fst y = fst c" by auto
    then obtain xs ys where cs: "cs = xs @ y # ys"
      by (auto simp: in_set_conv_decomp)
    from tl have "chain w (Some (fst y)) (y # ys)"
      unfolding cs by (rule chain_drop)
    with n y have "chain w (ptrNext n) ys" by simp
    with tl have "cs = ys" by (rule chain_unique)
    with cs show False by simp
  qed
  moreover from tl have "distinct (map fst cs)" by (rule Cons.IH)
  ultimately show ?case by simp
qed

lemma delete_node_leaf:
  "lookup w a = Some n \<Longrightarrow> ptrNext n = None \<Longrightarrow>
   delete_node sh a w = Some (free (w\<lparr>cout := cout w @ destroy_msg sh n\<rparr>) a, 1)"
  by simp

lemma move_head_next_chain:
  assumes "ptrHead l = Some a" and "lookup w a = Some n"
  shows "move_head_next sh l w =
    Some (l\<lparr>ptrHead := ptrNext n\<rparr>,
          w\<lparr>store := (store w)[a := None],
            cout := cout w @ destroy_msg sh n,
            dtor_depth := max (dtor_depth w) 1\<rparr>)"
proof -
  let ?w0 = "put w a (n\<lparr>ptrNext := None\<rparr>)"
  have "lookup ?w0 a = Some (n\<lparr>ptrNext := None\<rparr>)"
    using assms(2) by (simp add: lookup_put lookup_Some_less)
  then have "delete_node sh a ?w0 =
      Some (free (?w0\<lparr>cout := cout ?w0 @ destroy_msg sh (n\<lparr>ptrNext := None\<rparr>)\<rparr>) a, 1)"
    by (rule delete_node_leaf) simp
  then show ?thesis
    using assms by (simp add: move_head_next_def dispose_def put_def free_def destroy_msg_def)
qed

section \<open>The member functions on a list that owns a chain\<close>

text \<open>
  Each lemma gives the result of a member function on a list that owns a chain, the chain
  the list owns afterwards, and the cells, output and destructor depth of the new world.
\<close>

lemma owns_push:
  assumes "owns w l cs" and "push v l w = (l', w')"
  shows "owns w' l' ((length (store w), v) # cs)"
proof -
  from assms(2) have l': "l' = l\<lparr>ptrHead := Some (length (store w))\<rparr>"
    and w': "w' = w\<lparr>store := store w @ [Some \<lparr>element = v, ptrNext = ptrHead l\<rparr>]\<rparr>"
    by (simp_all add: push_eq)
  have "chain w' (ptrHead l) cs"
  proof (rule chain_frame)
    show "chain w (ptrHead l) cs" using assms(1) by (simp add: owns_def)
  next
    fix a assume "a \<in> fst ` set cs"
    with assms(1) have "a < length (store w)"
      unfolding owns_def by (rule chain_less)
    then show "lookup w' a = lookup w a"
      by (simp add: w' lookup_append)
  qed
  then show ?thesis
    by (simp add: owns_def l' w' lookup_append)
qed

lemma push_frame:
  assumes "push v l w = (l', w')"
  shows "length (store w') = Suc (length (store w))"
    and "a < length (store w) \<Longrightarrow> lookup w' a = lookup w a"
    and "cout w' = cout w" and "dtor_depth w' = dtor_depth w"
  using assms by (auto simp: push_eq lookup_append)

lemma push_all_owns:
  assumes "owns w l cs" and "push_all vs l w = (l', w')"
  shows "\<exists>cs'. owns w' l' (cs' @ cs) \<and> map snd cs' = rev vs \<and>
           map fst cs' = rev [length (store w)..<length (store w) + length vs] \<and>
           length (store w') = length (store w) + length vs \<and>
           (\<forall>a < length (store w). lookup w' a = lookup w a) \<and>
           cout w' = cout w \<and> dtor_depth w' = dtor_depth w"
  using assms
proof (induction vs arbitrary: l w cs)
  case Nil
  then show ?case by auto
next
  case (Cons v vs)
  obtain l1 w1 where p: "push v l w = (l1, w1)"
    by (cases "push v l w")
  with Cons.prems have o1: "owns w1 l1 ((length (store w), v) # cs)"
    and r: "push_all vs l1 w1 = (l', w')"
    by (auto intro: owns_push)
  from Cons.IH [OF o1 r] obtain cs' where
    a: "owns w' l' (cs' @ (length (store w), v) # cs)" and b: "map snd cs' = rev vs"
    and c: "map fst cs' = rev [length (store w1)..<length (store w1) + length vs]"
    and d: "length (store w') = length (store w1) + length vs"
    and e: "\<forall>a < length (store w1). lookup w' a = lookup w1 a"
    and f: "cout w' = cout w1" "dtor_depth w' = dtor_depth w1"
    by blast
  note pf = push_frame [OF p]
  have "[length (store w)..<length (store w) + length (v # vs)] =
      length (store w) # [Suc (length (store w))..<length (store w) + length (v # vs)]"
    by (rule upt_conv_Cons) simp
  then have "[length (store w)..<length (store w) + length (v # vs)] =
      length (store w) # [length (store w1)..<length (store w1) + length vs]"
    by (simp add: pf(1))
  with c have "map fst (cs' @ [(length (store w), v)]) =
      rev [length (store w)..<length (store w) + length (v # vs)]"
    by simp
  moreover from e pf(1,2) have "\<forall>a < length (store w). lookup w' a = lookup w a"
    by auto
  moreover from a have "owns w' l' ((cs' @ [(length (store w), v)]) @ cs)"
    by simp
  moreover from b have "map snd (cs' @ [(length (store w), v)]) = rev (v # vs)"
    by simp
  ultimately show ?case
    using d f pf(1,3,4) by (intro exI [of _ "cs' @ [(length (store w), v)]"]) simp
qed

lemma owns_pop:
  assumes "owns w l ((a, v) # cs)"
  shows "\<exists>l' w'. pop sh l w = Some (l', w') \<and> owns w' l' cs \<and>
           store w' = (store w)[a := None] \<and>
           cout w' = cout w @ ''Destroying Node with data '' @ sh v @ endl \<and>
           dtor_depth w' = max (dtor_depth w) 1"
proof -
  from assms obtain n where h: "ptrHead l = Some a" and n: "lookup w a = Some n"
    and v: "element n = v" and tl: "chain w (ptrNext n) cs"
    by (auto simp: owns_def split: option.splits)
  let ?l' = "l\<lparr>ptrHead := ptrNext n\<rparr>"
  let ?w' = "w\<lparr>store := (store w)[a := None], cout := cout w @ destroy_msg sh n,
               dtor_depth := max (dtor_depth w) 1\<rparr>"
  have p: "pop sh l w = Some (?l', ?w')"
    using h by (simp add: pop_def move_head_next_chain [OF h n])
  from assms have "distinct (map fst ((a, v) # cs))"
    unfolding owns_def by (rule chain_distinct)
  then have na: "a \<notin> fst ` set cs" by simp
  have "chain ?w' (ptrNext n) cs"
    using tl
  proof (rule chain_frame)
    fix b assume "b \<in> fst ` set cs"
    with na have "b \<noteq> a" by auto
    then show "lookup ?w' b = lookup w b"
      by (simp add: lookup_def)
  qed
  then have "owns ?w' ?l' cs" by (simp add: owns_def)
  with p v show ?thesis
    by (simp add: destroy_msg_def)
qed

lemma pop_empty: "ptrHead l = None \<Longrightarrow> pop sh l w = Some (l, w)"
  by (simp add: pop_def)

lemma owns_Nil: "owns w l [] \<longleftrightarrow> ptrHead l = None"
  by (simp add: owns_def)

lemma clean_owns:
  assumes "owns w l cs"
  shows "\<exists>w'. clean sh l w = Some (l\<lparr>ptrHead := None\<rparr>, w') \<and>
           length (store w') = length (store w) \<and>
           (\<forall>a. lookup w' a = (if a \<in> fst ` set cs then None else lookup w a)) \<and>
           cout w' = cout w @ concat (map (\<lambda>v. ''Destroying Node with data '' @ sh v @ endl) (map snd cs)) \<and>
           dtor_depth w' = (if cs = [] then dtor_depth w else max (dtor_depth w) 1)"
  using assms
proof (induction cs arbitrary: l w)
  case Nil
  then have "ptrHead l = None" by (simp add: owns_def)
  then show ?case by simp
next
  case (Cons c cs)
  obtain a v where c: "c = (a, v)" by (cases c)
  from Cons.prems obtain n where h: "ptrHead l = Some a" and n: "lookup w a = Some n"
    and v: "element n = v" and tl: "chain w (ptrNext n) cs"
    by (auto simp: c owns_def split: option.splits)
  from owns_pop [OF Cons.prems [unfolded c], of sh] h obtain l1 w1 where
    m: "move_head_next sh l w = Some (l1, w1)" and o1: "owns w1 l1 cs"
    and st: "store w1 = (store w)[a := None]"
    and co: "cout w1 = cout w @ ''Destroying Node with data '' @ sh v @ endl"
    and de: "dtor_depth w1 = max (dtor_depth w) 1"
    by (auto simp: pop_def)
  from Cons.IH [OF o1] obtain w' where
    cl: "clean sh l1 w1 = Some (l1\<lparr>ptrHead := None\<rparr>, w')"
    and len: "length (store w') = length (store w1)"
    and lk: "\<forall>b. lookup w' b = (if b \<in> fst ` set cs then None else lookup w1 b)"
    and co': "cout w' = cout w1 @ concat (map (\<lambda>v. ''Destroying Node with data '' @ sh v @ endl) (map snd cs))"
    and de': "dtor_depth w' = (if cs = [] then dtor_depth w1 else max (dtor_depth w1) 1)"
    by blast
  from m h n have l1: "l1 = l\<lparr>ptrHead := ptrNext n\<rparr>"
    by (simp add: move_head_next_chain [OF h n])
  have "clean sh l w = Some (l\<lparr>ptrHead := None\<rparr>, w')"
    using h m cl by (simp add: l1)
  moreover have "\<forall>b. lookup w' b = (if b \<in> fst ` set (c # cs) then None else lookup w b)"
    using lk st by (auto simp: c lookup_def)
  ultimately show ?case
    using len st co co' de de' by (auto simp: c)
qed

lemma print_loop_chain:
  "chain w p cs \<Longrightarrow>
   print_loop sh w p os = Some (os @ concat (map (\<lambda>v. sh v @ '' -> '') (map snd cs)))"
proof (induction cs arbitrary: p os)
  case Nil
  then show ?case by (subst print_loop.simps) simp
next
  case (Cons c cs)
  from Cons.prems obtain n where "p = Some (fst c)" and "lookup w (fst c) = Some n"
    and "element n = snd c" and tl: "chain w (ptrNext n) cs"
    by (auto split: option.splits)
  then show ?case
    by (subst print_loop.simps) (simp add: Cons.IH [OF tl])
qed

lemma print_owns:
  "owns w l cs \<Longrightarrow> print sh l w os = Some (os @ render sh (map snd cs), l, w)"
  by (simp add: print_def owns_def print_loop_chain render_def)

section \<open>The copy constructor\<close>

text \<open>
  The invariant of the loop: the cursor heads the rest of the source chain, the new head
  heads the chain built so far, \<^verbatim>\<open>ptrCurrNode\<close> is its last node, and the two chains share
  no node. Each round appends one freshly allocated node to the new chain.
\<close>

lemma chain_snoc:
  assumes "chain w p (ds @ [(k, u)])"
    and "lookup w' k = Some m" and "element m = u" and "ptrNext m = Some t"
    and "lookup w' t = Some n" and "element n = v" and "ptrNext n = None"
    and "\<And>a. a \<in> fst ` set ds \<Longrightarrow> lookup w' a = lookup w a"
  shows "chain w' p (ds @ [(k, u), (t, v)])"
  using assms(1,8)
proof (induction ds arbitrary: p)
  case Nil
  with assms(2-7) show ?case by (simp split: option.splits)
next
  case (Cons c ds)
  from Cons.prems(1) obtain x where p: "p = Some (fst c)" and x: "lookup w (fst c) = Some x"
    and e: "element x = snd c" and tl: "chain w (ptrNext x) (ds @ [(k, u)])"
    by (auto split: option.splits)
  from tl have "chain w' (ptrNext x) (ds @ [(k, u), (t, v)])"
    by (rule Cons.IH) (simp add: Cons.prems(2))
  moreover have "lookup w' (fst c) = Some x"
    using x Cons.prems(2) [of "fst c"] by simp
  ultimately show ?case
    using p e by simp
qed

lemma copy_loop_append:
  assumes "chain w cursor cs"
    and "chain w (Some h) (ds @ [(k, u)])"
    and "fst ` set cs \<inter> fst ` set (ds @ [(k, u)]) = {}"
  shows "\<exists>w' cs'. copy_loop sh w (Some h) (Some k) cursor = Some (w', Some h) \<and>
           chain w' (Some h) (ds @ (k, u) # cs') \<and> map snd cs' = map snd cs \<and>
           (\<forall>a \<in> fst ` set cs'. length (store w) \<le> a) \<and>
           (\<forall>a < length (store w). a \<noteq> k \<longrightarrow> lookup w' a = lookup w a) \<and>
           length (store w) \<le> length (store w') \<and>
           cout w' = cout w \<and> dtor_depth w' = dtor_depth w"
  using assms
proof (induction cs arbitrary: w cursor ds k u)
  case Nil
  then have "cursor = None" by simp
  then have "copy_loop sh w (Some h) (Some k) cursor = Some (w, Some h)"
    by (subst copy_loop.simps) simp
  with Nil.prems(2) show ?case by auto
next
  case (Cons c cs)
  obtain a v where c: "c = (a, v)" by (cases c)
  from Cons.prems(1) obtain n where cur: "cursor = Some a" and n: "lookup w a = Some n"
    and v: "element n = v" and tl: "chain w (ptrNext n) cs"
    by (auto simp: c split: option.splits)
  define t where "t = length (store w)"
  define w1 where "w1 = w\<lparr>store := store w @ [Some \<lparr>element = v, ptrNext = None\<rparr>]\<rparr>"
  have mk: "make_unique (element n) w = (t, w1)"
    by (simp add: make_unique_def t_def w1_def v)
  from Cons.prems(2) have "chain w (Some (fst (k, u))) [(k, u)]"
    by (rule chain_drop)
  then obtain m where m: "lookup w k = Some m" and mu: "element m = u"
    and mn: "ptrNext m = None"
    by (auto split: option.splits)
  from m have k_less: "k < length (store w)" by (rule lookup_Some_less)
  from n have a_less: "a < length (store w)" by (rule lookup_Some_less)
  from Cons.prems(3) have ak: "a \<noteq> k" by (auto simp: c)
  have nt: "a \<noteq> t" "k \<noteq> t"
    using a_less k_less by (simp_all add: t_def)
  define w2 where "w2 = put w1 k (m\<lparr>ptrNext := Some t\<rparr>)"
  have l1: "\<And>b. lookup w1 b = (if b = t then Some \<lparr>element = v, ptrNext = None\<rparr> else lookup w b)"
    by (simp add: w1_def t_def lookup_append)
  have l2: "\<And>b. lookup w2 b =
      (if b = k then Some (m\<lparr>ptrNext := Some t\<rparr>)
       else if b = t then Some \<lparr>element = v, ptrNext = None\<rparr> else lookup w b)"
  proof -
    have "k < length (store w1)" using k_less by (simp add: w1_def)
    then show "\<And>b. lookup w2 b =
      (if b = k then Some (m\<lparr>ptrNext := Some t\<rparr>)
       else if b = t then Some \<lparr>element = v, ptrNext = None\<rparr> else lookup w b)"
      by (simp add: w2_def lookup_put l1)
  qed
  have step: "copy_loop sh w (Some h) (Some k) cursor =
      copy_loop sh w2 (Some h) (Some t) (ptrNext n)"
    using ak nt
    by (subst copy_loop.simps)
      (simp add: cur n mk l1 m mn dispose_def w2_def [symmetric] l2)
  have src: "chain w2 (ptrNext n) cs"
    using tl
  proof (rule chain_frame)
    fix b assume b: "b \<in> fst ` set cs"
    with tl have "b < length (store w)" by (rule chain_less)
    moreover from b Cons.prems(3) have "b \<noteq> k" by auto
    ultimately show "lookup w2 b = lookup w b"
      by (simp add: l2 t_def)
  qed
  from Cons.prems(2) have dist: "distinct (map fst (ds @ [(k, u)]))"
    by (rule chain_distinct)
  have new: "chain w2 (Some h) ((ds @ [(k, u)]) @ [(t, v)])"
  proof -
    have "chain w2 (Some h) (ds @ [(k, u), (t, v)])"
    proof (rule chain_snoc [OF Cons.prems(2)])
      show "lookup w2 k = Some (m\<lparr>ptrNext := Some t\<rparr>)" by (simp add: l2)
      show "element (m\<lparr>ptrNext := Some t\<rparr>) = u" by (simp add: mu)
      show "ptrNext (m\<lparr>ptrNext := Some t\<rparr>) = Some t" by simp
      show "lookup w2 t = Some \<lparr>element = v, ptrNext = None\<rparr>"
        using k_less by (simp add: l2 t_def)
      show "element \<lparr>element = v, ptrNext = None\<rparr> = v" by simp
      show "ptrNext \<lparr>element = v, ptrNext = None\<rparr> = None" by simp
    next
      fix b assume b: "b \<in> fst ` set ds"
      with dist have "b \<noteq> k" by auto
      moreover from b have "b \<in> fst ` set (ds @ [(k, u)])" by auto
      with Cons.prems(2) have "b < length (store w)"
        by (rule chain_less)
      ultimately show "lookup w2 b = lookup w b"
        by (simp add: l2 t_def)
    qed
    then show ?thesis by simp
  qed
  have sep: "fst ` set cs \<inter> fst ` set ((ds @ [(k, u)]) @ [(t, v)]) = {}"
  proof -
    have "t \<notin> fst ` set cs"
    proof
      assume "t \<in> fst ` set cs"
      with tl have "t < length (store w)" by (rule chain_less)
      then show False by (simp add: t_def)
    qed
    with Cons.prems(3) show ?thesis by (auto simp: c)
  qed
  have len2: "length (store w2) = Suc (length (store w))"
    by (simp add: w2_def w1_def put_def)
  from Cons.IH [OF src new sep] obtain w' cs' where
    r: "copy_loop sh w2 (Some h) (Some t) (ptrNext n) = Some (w', Some h)"
    and ch: "chain w' (Some h) ((ds @ [(k, u)]) @ (t, v) # cs')"
    and vs: "map snd cs' = map snd cs"
    and fr: "\<forall>a \<in> fst ` set cs'. length (store w2) \<le> a"
    and un: "\<forall>a < length (store w2). a \<noteq> t \<longrightarrow> lookup w' a = lookup w2 a"
    and le: "length (store w2) \<le> length (store w')"
    and co: "cout w' = cout w2" and de: "dtor_depth w' = dtor_depth w2"
    by blast
  have "\<forall>b \<in> fst ` set ((t, v) # cs'). length (store w) \<le> b"
    using fr len2 by (auto simp: t_def)
  moreover have "\<forall>b < length (store w). b \<noteq> k \<longrightarrow> lookup w' b = lookup w b"
    using un len2 by (auto simp: l2 t_def)
  moreover have "chain w' (Some h) (ds @ (k, u) # (t, v) # cs')"
    using ch by simp
  moreover have "map snd ((t, v) # cs') = map snd (c # cs)"
    using vs by (simp add: c)
  moreover have "cout w' = cout w" "dtor_depth w' = dtor_depth w"
    using co de by (simp_all add: w2_def w1_def put_def)
  moreover have "length (store w) \<le> length (store w')"
    using le len2 by simp
  ultimately show ?case
    using r step by (intro exI [of _ w'] exI [of _ "(t, v) # cs'"]) simp
qed

lemma LinkedList_copy_owns:
  assumes "owns w list cs"
  shows "\<exists>new w' cs'. LinkedList_copy sh list w = Some (new, list, w') \<and>
           owns w' new cs' \<and> map snd cs' = map snd cs \<and> owns w' list cs \<and>
           (\<forall>a \<in> fst ` set cs'. length (store w) \<le> a) \<and>
           (\<forall>a < length (store w). lookup w' a = lookup w a) \<and>
           length (store w) \<le> length (store w') \<and>
           cout w' = cout w \<and> dtor_depth w' = dtor_depth w"
proof (cases cs)
  case Nil
  with assms have "ptrHead list = None" by (simp add: owns_def)
  then have "copy_loop sh w None None (ptrHead list) = Some (w, None)"
    by (subst copy_loop.simps) simp
  with Nil assms show ?thesis
    by (simp add: LinkedList_copy_def owns_def)
next
  case (Cons c cs0)
  obtain a v where c: "c = (a, v)" by (cases c)
  from assms obtain n where h: "ptrHead list = Some a" and n: "lookup w a = Some n"
    and v: "element n = v" and tl: "chain w (ptrNext n) cs0"
    by (auto simp: Cons c owns_def split: option.splits)
  define t where "t = length (store w)"
  define w1 where "w1 = w\<lparr>store := store w @ [Some \<lparr>element = v, ptrNext = None\<rparr>]\<rparr>"
  from n have a_less: "a < length (store w)" by (rule lookup_Some_less)
  have mk: "make_unique (element n) w = (t, w1)"
    by (simp add: make_unique_def t_def w1_def v)
  have l1: "\<And>b. lookup w1 b = (if b = t then Some \<lparr>element = v, ptrNext = None\<rparr> else lookup w b)"
    by (simp add: w1_def t_def lookup_append)
  have step: "copy_loop sh w None None (ptrHead list) =
      copy_loop sh w1 (Some t) (Some t) (ptrNext n)"
    using a_less
    by (subst copy_loop.simps)
      (simp add: h n mk l1 t_def)
  have src: "chain w1 (ptrNext n) cs0"
    using tl
  proof (rule chain_frame)
    fix b assume "b \<in> fst ` set cs0"
    with tl have "b < length (store w)" by (rule chain_less)
    then show "lookup w1 b = lookup w b" by (simp add: l1 t_def)
  qed
  have new: "chain w1 (Some t) ([] @ [(t, v)])"
    by (simp add: l1)
  have sep: "fst ` set cs0 \<inter> fst ` set ([] @ [(t, v)]) = {}"
  proof -
    have "t \<notin> fst ` set cs0"
    proof
      assume "t \<in> fst ` set cs0"
      with tl have "t < length (store w)" by (rule chain_less)
      then show False by (simp add: t_def)
    qed
    then show ?thesis by simp
  qed
  have len1: "length (store w1) = Suc (length (store w))"
    by (simp add: w1_def)
  from copy_loop_append [OF src new sep] obtain w' cs' where
    r: "copy_loop sh w1 (Some t) (Some t) (ptrNext n) = Some (w', Some t)"
    and ch: "chain w' (Some t) ([] @ (t, v) # cs')"
    and vs: "map snd cs' = map snd cs0"
    and fr: "\<forall>a \<in> fst ` set cs'. length (store w1) \<le> a"
    and un: "\<forall>a < length (store w1). a \<noteq> t \<longrightarrow> lookup w' a = lookup w1 a"
    and le: "length (store w1) \<le> length (store w')"
    and co: "cout w' = cout w1" and de: "dtor_depth w' = dtor_depth w1"
    by blast
  have un': "\<forall>b < length (store w). lookup w' b = lookup w b"
    using un len1 by (auto simp: l1 t_def)
  have "owns w' list cs"
    unfolding owns_def
  proof (rule chain_frame)
    show "chain w (ptrHead list) cs" using assms by (simp add: owns_def)
  next
    fix b assume "b \<in> fst ` set cs"
    with assms have "b < length (store w)"
      unfolding owns_def by (rule chain_less)
    with un' show "lookup w' b = lookup w b" by simp
  qed
  moreover have "owns w' \<lparr>ptrHead = Some t\<rparr> ((t, v) # cs')"
    using ch by (simp add: owns_def)
  moreover have "\<forall>b \<in> fst ` set ((t, v) # cs'). length (store w) \<le> b"
    using fr len1 by (auto simp: t_def)
  moreover have "map snd ((t, v) # cs') = map snd cs"
    using vs by (simp add: Cons c)
  moreover have "LinkedList_copy sh list w = Some (\<lparr>ptrHead = Some t\<rparr>, list, w')"
    using step r by (simp add: LinkedList_copy_def)
  moreover have "cout w' = cout w" "dtor_depth w' = dtor_depth w"
    "length (store w) \<le> length (store w')"
    using co de le by (simp_all add: w1_def)
  ultimately show ?thesis
    using un' by blast
qed

section \<open>Two lists in one store\<close>

text \<open>
  A \<^verbatim>\<open>push\<close> or \<^verbatim>\<open>pop\<close> on one list leaves every other list whose chain shares no node
  with it owning the chain it owned.
\<close>

lemma peek_owns: "owns w l ((a, v) # cs) \<Longrightarrow> peek l w = Some (Inr v, l, w)"
  by (auto simp: owns_def peek_def split: option.splits)

lemma peek_empty: "ptrHead l = None \<Longrightarrow> peek l w = Some (Inl EmptyContainer, l, w)"
  by (simp add: peek_def)

lemma owns_frame:
  "owns w l cs \<Longrightarrow> (\<And>a. a \<in> fst ` set cs \<Longrightarrow> lookup w' a = lookup w a) \<Longrightarrow> owns w' l cs"
  unfolding owns_def by (rule chain_frame)

lemma owns_less: "owns w l cs \<Longrightarrow> a \<in> fst ` set cs \<Longrightarrow> a < length (store w)"
  unfolding owns_def by (rule chain_less)

lemma mutate_separate:
  assumes "owns w l cs" and "owns w l0 cs0" and "fst ` set cs \<inter> fst ` set cs0 = {}"
  shows "\<exists>l' w' cs'. mutate sh m l w = Some (l', w') \<and> owns w' l' cs' \<and>
           map snd cs' = stack_after [m] (map snd cs) \<and>
           owns w' l0 cs0 \<and> fst ` set cs' \<inter> fst ` set cs0 = {}"
proof (cases m)
  case (Push v)
  obtain l' w' where p: "push v l w = (l', w')" by (cases "push v l w")
  from assms(1) p have o: "owns w' l' ((length (store w), v) # cs)" by (rule owns_push)
  have o0: "owns w' l0 cs0"
    using assms(2)
  proof (rule owns_frame)
    fix a assume "a \<in> fst ` set cs0"
    with assms(2) have "a < length (store w)" by (rule owns_less)
    then show "lookup w' a = lookup w a" by (rule push_frame(2) [OF p])
  qed
  have "length (store w) \<notin> fst ` set cs0"
  proof
    assume "length (store w) \<in> fst ` set cs0"
    with assms(2) have "length (store w) < length (store w)" by (rule owns_less)
    then show False by simp
  qed
  with assms(3) have "fst ` set ((length (store w), v) # cs) \<inter> fst ` set cs0 = {}"
    by auto
  with o o0 p Push show ?thesis
    by (intro exI [of _ l'] exI [of _ w'] exI [of _ "(length (store w), v) # cs"]) simp
next
  case Pop
  show ?thesis
  proof (cases cs)
    case Nil
    with assms(1) have "ptrHead l = None" by (simp add: owns_Nil)
    then have "pop sh l w = Some (l, w)" by (rule pop_empty)
    with assms Nil Pop show ?thesis by auto
  next
    case (Cons c cs1)
    obtain a v where c: "c = (a, v)" by (cases c)
    from assms(1) have "owns w l ((a, v) # cs1)" by (simp add: Cons c)
    from owns_pop [OF this, of sh] obtain l' w' where
      p: "pop sh l w = Some (l', w')" and o: "owns w' l' cs1"
      and st: "store w' = (store w)[a := None]"
      by blast
    from assms(3) have na: "a \<notin> fst ` set cs0" by (auto simp: Cons c)
    have o0: "owns w' l0 cs0"
      using assms(2)
    proof (rule owns_frame)
      fix b assume "b \<in> fst ` set cs0"
      with na have "b \<noteq> a" by auto
      then show "lookup w' b = lookup w b" by (simp add: lookup_def st)
    qed
    from assms(3) have "fst ` set cs1 \<inter> fst ` set cs0 = {}" by (auto simp: Cons)
    with p o o0 Pop show ?thesis
      by (intro exI [of _ l'] exI [of _ w'] exI [of _ cs1]) (simp add: Cons)
  qed
qed

lemma mutate_all_separate:
  assumes "owns w l cs" and "owns w l0 cs0" and "fst ` set cs \<inter> fst ` set cs0 = {}"
  shows "\<exists>l' w' cs'. mutate_all sh ms l w = Some (l', w') \<and> owns w' l' cs' \<and>
           map snd cs' = stack_after ms (map snd cs) \<and>
           owns w' l0 cs0 \<and> fst ` set cs' \<inter> fst ` set cs0 = {}"
  using assms
proof (induction ms arbitrary: l w cs)
  case Nil
  then show ?case by auto
next
  case (Cons m ms)
  from mutate_separate [OF Cons.prems, of sh m] obtain l1 w1 cs1 where
    s: "mutate sh m l w = Some (l1, w1)" and o: "owns w1 l1 cs1"
    and v: "map snd cs1 = stack_after [m] (map snd cs)"
    and o0: "owns w1 l0 cs0" and d: "fst ` set cs1 \<inter> fst ` set cs0 = {}"
    by blast
  from Cons.IH [OF o o0 d] obtain l' w' cs' where
    r: "mutate_all sh ms l1 w1 = Some (l', w')" and o': "owns w' l' cs'"
    and v': "map snd cs' = stack_after ms (map snd cs1)"
    and o0': "owns w' l0 cs0" and d': "fst ` set cs' \<inter> fst ` set cs0 = {}"
    by blast
  have "stack_after ms (map snd cs1) = stack_after (m # ms) (map snd cs)"
    using v by (cases m) simp_all
  with s r o' v' o0' d' show ?case
    by (intro exI [of _ l'] exI [of _ w'] exI [of _ cs']) simp
qed

lemma pop_times_owns:
  "owns w l (cs1 @ cs2) \<Longrightarrow>
   \<exists>l' w'. pop_times sh (length cs1) l w = Some (l', w') \<and> owns w' l' cs2 \<and>
     length (store w') = length (store w)"
proof (induction cs1 arbitrary: l w)
  case Nil
  then show ?case by simp
next
  case (Cons c cs1)
  obtain a v where c: "c = (a, v)" by (cases c)
  from Cons.prems have "owns w l ((a, v) # cs1 @ cs2)" by (simp add: c)
  from owns_pop [OF this, of sh] obtain l1 w1 where
    p: "pop sh l w = Some (l1, w1)" and o: "owns w1 l1 (cs1 @ cs2)"
    and st: "store w1 = (store w)[a := None]"
    by blast
  from Cons.IH [OF o] obtain l' w' where
    "pop_times sh (length cs1) l1 w1 = Some (l', w')" and "owns w' l' cs2"
    and "length (store w') = length (store w1)"
    by blast
  with p st show ?case by simp
qed

section \<open>Further facts used by the claims\<close>

lemma store_prefix:
  assumes "\<forall>a < length (store w). lookup w' a = lookup w a"
    and "length (store w) \<le> length (store w')"
  shows "take (length (store w)) (store w') = store w"
proof (rule nth_equalityI)
  show "length (take (length (store w)) (store w')) = length (store w)"
    using assms(2) by simp
next
  fix i assume "i < length (take (length (store w)) (store w'))"
  then have i: "i < length (store w)" by simp
  with assms(1) have "lookup w' i = lookup w i" by simp
  with i assms(2) show "take (length (store w)) (store w') ! i = store w ! i"
    by (simp add: lookup_def)
qed

text \<open>
  Deleting the head node of a chain whose links are intact destroys the whole chain by
  nested destructor calls, as deep as the chain is long.
\<close>

lemma delete_node_chain:
  "chain w (Some a) cs \<Longrightarrow> \<exists>w'. delete_node sh a w = Some (w', length cs)"
proof (induction cs arbitrary: a w)
  case Nil
  then show ?case by simp
next
  case (Cons c cs)
  from Cons.prems obtain n where a: "fst c = a" and n: "lookup w a = Some n"
    and tl: "chain w (ptrNext n) cs"
    by (auto split: option.splits)
  let ?w1 = "free (w\<lparr>cout := cout w @ destroy_msg sh n\<rparr>) a"
  from Cons.prems have "distinct (map fst (c # cs))" by (rule chain_distinct)
  with a have na: "a \<notin> fst ` set cs" by auto
  have tl1: "chain ?w1 (ptrNext n) cs"
    using tl
  proof (rule chain_frame)
    fix b assume "b \<in> fst ` set cs"
    with na have "b \<noteq> a" by auto
    then show "lookup ?w1 b = lookup w b"
      by (simp add: lookup_free lookup_cout_update)
  qed
  show ?case
  proof (cases cs)
    case Nil
    with tl have "ptrNext n = None" by simp
    with n Nil show ?thesis
      by (subst delete_node.simps) simp
  next
    case (Cons d ds)
    with tl have b: "ptrNext n = Some (fst d)" by simp
    with tl1 have "chain ?w1 (Some (fst d)) cs" by simp
    from Cons.IH [OF this] obtain w' where "delete_node sh (fst d) ?w1 = Some (w', length cs)"
      by blast
    with n b show ?thesis
      by (subst delete_node.simps) simp
  qed
qed

lemma push_then_clean:
  "case push_all vs LinkedList_default w of
     (l1, w1) \<Rightarrow>
       (\<exists>w'. clean sh l1 w1 = Some (LinkedList_default, w') \<and>
          dtor_depth w' \<le> max (dtor_depth w) 1 \<and>
          length (store w') = length (store w) + length vs \<and>
          (\<forall>a. lookup w' a = (if a < length (store w) then lookup w a else None)))"
proof -
  obtain l1 w1 where p: "push_all vs LinkedList_default w = (l1, w1)"
    by (cases "push_all vs LinkedList_default w")
  have "owns w LinkedList_default []"
    by (simp add: owns_def LinkedList_default_def)
  from push_all_owns [OF this p] obtain cs' where
    o: "owns w1 l1 (cs' @ [])"
    and f: "map fst cs' = rev [length (store w)..<length (store w) + length vs]"
    and len: "length (store w1) = length (store w) + length vs"
    and un: "\<forall>a < length (store w). lookup w1 a = lookup w a"
    and de: "dtor_depth w1 = dtor_depth w"
    by blast
  from o have o: "owns w1 l1 cs'" by simp
  from clean_owns [OF o, of sh] obtain w' where
    c: "clean sh l1 w1 = Some (l1\<lparr>ptrHead := None\<rparr>, w')"
    and len': "length (store w') = length (store w1)"
    and lk: "\<forall>a. lookup w' a = (if a \<in> fst ` set cs' then None else lookup w1 a)"
    and de': "dtor_depth w' = (if cs' = [] then dtor_depth w1 else max (dtor_depth w1) 1)"
    by blast
  have "l1\<lparr>ptrHead := None\<rparr> = LinkedList_default"
    by (simp add: LinkedList_default_def)
  moreover have "dtor_depth w' \<le> max (dtor_depth w) 1"
    using de de' by simp
  moreover have "lookup w' a = (if a < length (store w) then lookup w a else None)" for a
  proof -
    from f have "fst ` set cs' = {length (store w)..<length (store w) + length vs}"
      by (metis list.set_map set_rev set_upt)
    then have "a \<in> fst ` set cs' \<longleftrightarrow> length (store w) \<le> a \<and> a < length (store w1)"
      by (simp add: len)
    moreover have "lookup w1 a = None" if "length (store w1) \<le> a"
      using that by (simp add: lookup_def)
    ultimately show ?thesis
      using lk un by (cases "a < length (store w)") (auto simp: not_less)
  qed
  ultimately show ?thesis
    using p c len len' by simp
qed

lemma print_empty:
  "ptrHead l = None \<Longrightarrow> print sh l w os = Some (os @ ''NULL'' @ endl, l, w)"
  using print_owns [of w l "[]" sh os] by (simp add: owns_Nil render_def)

lemma print_const: "print sh l w os = Some (os', l', w') \<Longrightarrow> l' = l \<and> w' = w"
  by (auto simp: print_def split: option.splits)

lemma show_int_digits:
  "show_int 0 = ''0''" "show_int 1 = ''1''" "show_int 2 = ''2''" "show_int 3 = ''3''"
  "show_int 4 = ''4''" "show_int 5 = ''5''" "show_int 6 = ''6''" "show_int 7 = ''7''"
  "show_int 8 = ''8''" "show_int 9 = ''9''"
  by (simp_all add: show_int_def show_nat.simps)

section \<open>The claims\<close>

text \<open>
  C1. Last in, first out: after the values of a non-empty sequence \<open>vs\<close> have been
  pushed in order onto an empty list, in any world, \<^verbatim>\<open>peek()\<close> returns the value pushed
  last, and leaves list and world as they are.
\<close>

theorem push_all_peek_last:
  assumes "vs \<noteq> []"
  shows "case push_all vs LinkedList_default w of
           (l, w') \<Rightarrow> peek l w' = Some (Inr (last vs), l, w')"
proof -
  obtain l w' where p: "push_all vs LinkedList_default w = (l, w')"
    by (cases "push_all vs LinkedList_default w")
  have "owns w LinkedList_default []"
    by (simp add: owns_def LinkedList_default_def)
  from push_all_owns [OF this p] obtain cs' where
    o: "owns w' l (cs' @ [])" and v: "map snd cs' = rev vs"
    by blast
  from v assms obtain a x cs where cs': "cs' = (a, x) # cs"
    by (cases cs') auto
  with v assms have "x = last vs"
    by (metis hd_rev list.sel(1) list.simps(9) snd_conv)
  with o cs' have "peek l w' = Some (Inr (last vs), l, w')"
    by (simp add: peek_owns)
  with p show ?thesis by simp
qed

theorem push_all_peek_last_witness:
  "[1, 2, 3 :: 32 word] \<noteq> [] \<and>
   (case push_all [1, 2, 3 :: 32 word] LinkedList_default
           \<lparr>store = [], cout = [], dtor_depth = 0\<rparr> of
      (l, w') \<Rightarrow> peek l w' = Some (Inr 3, l, w'))"
proof -
  have h: "[1, 2, 3 :: 32 word] \<noteq> []" by simp
  show ?thesis
    using h push_all_peek_last [OF h, of "\<lparr>store = [], cout = [], dtor_depth = 0\<rparr>"]
    by simp
qed

text \<open>
  C2. \<^verbatim>\<open>clean()\<close> is a total function, and on every list that owns a chain \<open>cs\<close> (the
  empty chain included) it returns, with the list empty, so that \<^verbatim>\<open>peek()\<close> throws
  afterwards, every node of \<open>cs\<close> released and no other cell touched. The nodes are
  destroyed one at a time from the head on, in the order of the destructor messages,
  and no \<^verbatim>\<open>~Node()\<close> activation is ever nested inside another: \<open>dtor_depth\<close> is at most
  1 whatever the length of the chain (deleting the head of the same chain with its links
  intact nests \<open>length cs\<close> activations, see \<open>delete_node_chain\<close>). In particular this
  holds after 100000 sequential values have been pushed onto an empty list, in any world:
  \<^verbatim>\<open>clean()\<close> returns and leaves the store with the live nodes it had before the pushes.
\<close>

theorem clean_iterative_teardown:
  "(owns w l cs \<longrightarrow>
      (\<exists>w'. clean sh l w = Some (l\<lparr>ptrHead := None\<rparr>, w') \<and>
         owns w' (l\<lparr>ptrHead := None\<rparr>) [] \<and>
         peek (l\<lparr>ptrHead := None\<rparr>) w' =
           Some (Inl EmptyContainer, l\<lparr>ptrHead := None\<rparr>, w') \<and>
         length (store w') = length (store w) \<and>
         (\<forall>a. lookup w' a = (if a \<in> fst ` set cs then None else lookup w a)) \<and>
         cout w' = cout w @
           concat (map (\<lambda>v. ''Destroying Node with data '' @ sh v @ endl) (map snd cs)) \<and>
         dtor_depth w' = (if cs = [] then dtor_depth w else max (dtor_depth w) 1))) \<and>
   (case push_all (map of_nat [0..<100000]) LinkedList_default u of
      (l1, w1) \<Rightarrow>
        (\<exists>w'. clean show_int l1 w1 = Some (LinkedList_default, w') \<and>
           dtor_depth w' \<le> max (dtor_depth u) 1 \<and>
           length (store w') = length (store u) + length (map of_nat [0..<100000] :: 32 word list) \<and>
           (\<forall>a. lookup w' a = (if a < length (store u) then lookup u a else None))))"
proof (rule conjI)
  show "owns w l cs \<longrightarrow>
      (\<exists>w'. clean sh l w = Some (l\<lparr>ptrHead := None\<rparr>, w') \<and>
         owns w' (l\<lparr>ptrHead := None\<rparr>) [] \<and>
         peek (l\<lparr>ptrHead := None\<rparr>) w' =
           Some (Inl EmptyContainer, l\<lparr>ptrHead := None\<rparr>, w') \<and>
         length (store w') = length (store w) \<and>
         (\<forall>a. lookup w' a = (if a \<in> fst ` set cs then None else lookup w a)) \<and>
         cout w' = cout w @
           concat (map (\<lambda>v. ''Destroying Node with data '' @ sh v @ endl) (map snd cs)) \<and>
         dtor_depth w' = (if cs = [] then dtor_depth w else max (dtor_depth w) 1))"
  proof
    assume "owns w l cs"
    from clean_owns [OF this, of sh] obtain w' where
      "clean sh l w = Some (l\<lparr>ptrHead := None\<rparr>, w')"
      "length (store w') = length (store w)"
      "\<forall>a. lookup w' a = (if a \<in> fst ` set cs then None else lookup w a)"
      "cout w' = cout w @
         concat (map (\<lambda>v. ''Destroying Node with data '' @ sh v @ endl) (map snd cs))"
      "dtor_depth w' = (if cs = [] then dtor_depth w else max (dtor_depth w) 1)"
      by (elim exE conjE) (rule that; assumption)
    moreover have "owns w' (l\<lparr>ptrHead := None\<rparr>) []"
      by (simp add: owns_Nil)
    moreover have "peek (l\<lparr>ptrHead := None\<rparr>) w' =
        Some (Inl EmptyContainer, l\<lparr>ptrHead := None\<rparr>, w')"
      by (simp add: peek_empty)
    ultimately show "\<exists>w'. clean sh l w = Some (l\<lparr>ptrHead := None\<rparr>, w') \<and>
         owns w' (l\<lparr>ptrHead := None\<rparr>) [] \<and>
         peek (l\<lparr>ptrHead := None\<rparr>) w' =
           Some (Inl EmptyContainer, l\<lparr>ptrHead := None\<rparr>, w') \<and>
         length (store w') = length (store w) \<and>
         (\<forall>a. lookup w' a = (if a \<in> fst ` set cs then None else lookup w a)) \<and>
         cout w' = cout w @
           concat (map (\<lambda>v. ''Destroying Node with data '' @ sh v @ endl) (map snd cs)) \<and>
         dtor_depth w' = (if cs = [] then dtor_depth w else max (dtor_depth w) 1)"
      by (intro exI conjI)
  qed
next
  show "case push_all (map of_nat [0..<100000]) LinkedList_default u of
      (l1, w1) \<Rightarrow>
        (\<exists>w'. clean show_int l1 w1 = Some (LinkedList_default, w') \<and>
           dtor_depth w' \<le> max (dtor_depth u) 1 \<and>
           length (store w') = length (store u) + length (map of_nat [0..<100000] :: 32 word list) \<and>
           (\<forall>a. lookup w' a = (if a < length (store u) then lookup u a else None)))"
    by (rule push_then_clean)
qed

theorem clean_iterative_teardown_witness:
  "owns \<lparr>store = [Some \<lparr>element = 5 :: 32 word, ptrNext = None\<rparr>,
                   Some \<lparr>element = 7, ptrNext = Some 0\<rparr>], cout = [], dtor_depth = 0\<rparr>
        \<lparr>ptrHead = Some 1\<rparr> [(1, 7), (0, 5)] \<and>
   (\<exists>w'. clean show_int \<lparr>ptrHead = Some 1\<rparr>
        \<lparr>store = [Some \<lparr>element = 5 :: 32 word, ptrNext = None\<rparr>,
                   Some \<lparr>element = 7, ptrNext = Some 0\<rparr>], cout = [], dtor_depth = 0\<rparr> =
        Some (\<lparr>ptrHead = None\<rparr>, w') \<and>
      lookup w' 0 = None \<and> lookup w' 1 = None \<and>
      cout w' = ''Destroying Node with data 7'' @ endl @ ''Destroying Node with data 5'' @ endl \<and>
      dtor_depth w' = 1)"
proof -
  let ?w = "\<lparr>store = [Some \<lparr>element = 5 :: 32 word, ptrNext = None\<rparr>,
                   Some \<lparr>element = 7, ptrNext = Some 0\<rparr>], cout = [], dtor_depth = 0\<rparr>"
  let ?l = "\<lparr>ptrHead = Some 1\<rparr>"
  have h: "owns ?w ?l [(1, 7), (0, 5)]"
    by (simp add: owns_def lookup_def)
  from h clean_iterative_teardown [where w = ?w and l = ?l and cs = "[(1, 7), (0, 5)]"
      and sh = show_int and u = ?w]
  obtain w' where "clean show_int ?l ?w = Some (?l\<lparr>ptrHead := None\<rparr>, w')"
    and "\<forall>a. lookup w' a = (if a \<in> fst ` set [(1 :: nat, 7 :: 32 word), (0, 5)] then None else lookup ?w a)"
    and "cout w' = cout ?w @
      concat (map (\<lambda>v. ''Destroying Node with data '' @ show_int v @ endl)
        (map snd [(1 :: nat, 7 :: 32 word), (0, 5)]))"
    and "dtor_depth w' = (if [(1 :: nat, 7 :: 32 word), (0, 5)] = [] then dtor_depth ?w
      else max (dtor_depth ?w) 1)"
    by blast
  then have "clean show_int ?l ?w = Some (\<lparr>ptrHead = None\<rparr>, w') \<and>
      lookup w' 0 = None \<and> lookup w' 1 = None \<and>
      cout w' = ''Destroying Node with data 7'' @ endl @ ''Destroying Node with data 5'' @ endl \<and>
      dtor_depth w' = 1"
    by (simp add: show_int_digits)
  with h show ?thesis by blast
qed

text \<open>
  C3. \<^verbatim>\<open>peek()\<close> throws exactly when the list has no head, and what it throws is
  \<open>EmptyContainer\<close>, the only value of type \<open>error\<close>. On a list that owns a chain with
  head value \<open>v\<close> it returns \<open>v\<close>. Whatever it returns, list and world are unchanged,
  so a second \<^verbatim>\<open>peek()\<close> returns the same. The other member functions have no
  exceptional result at all (their result types carry no \<open>error\<close>); on a list that
  owns a chain each of them returns.
\<close>

theorem peek_throws_iff_no_head:
  "((\<exists>e l' w'. peek l w = Some (Inl e, l', w')) \<longleftrightarrow> ptrHead l = None) \<and>
   (ptrHead l = None \<longrightarrow> peek l w = Some (Inl EmptyContainer, l, w)) \<and>
   (owns w l ((a, v) # cs) \<longrightarrow> peek l w = Some (Inr v, l, w)) \<and>
   (\<forall>r l' w'. peek l w = Some (r, l', w') \<longrightarrow>
      l' = l \<and> w' = w \<and> peek l' w' = Some (r, l', w')) \<and>
   (\<forall>e :: error. e = EmptyContainer) \<and>
   (owns w l cs' \<longrightarrow>
      pop sh l w \<noteq> None \<and> clean sh l w \<noteq> None \<and> print sh l w os \<noteq> None \<and>
      LinkedList_copy sh l w \<noteq> None)"
proof (intro conjI allI impI)
  show "(\<exists>e l' w'. peek l w = Some (Inl e, l', w')) \<longleftrightarrow> ptrHead l = None"
    by (auto simp: peek_def split: option.splits)
next
  assume "ptrHead l = None"
  then show "peek l w = Some (Inl EmptyContainer, l, w)" by (rule peek_empty)
next
  assume "owns w l ((a, v) # cs)"
  then show "peek l w = Some (Inr v, l, w)" by (rule peek_owns)
next
  fix r l' w' assume "peek l w = Some (r, l', w')"
  then show "l' = l" "w' = w" "peek l' w' = Some (r, l', w')"
    by (auto simp: peek_def split: option.splits)
next
  fix e :: error show "e = EmptyContainer" by (cases e)
next
  assume o: "owns w l cs'"
  show "pop sh l w \<noteq> None"
  proof (cases cs')
    case Nil
    with o show ?thesis by (simp add: owns_Nil pop_empty)
  next
    case (Cons c cs1)
    with o have "owns w l ((fst c, snd c) # cs1)" by simp
    from owns_pop [OF this, of sh] show ?thesis by auto
  qed
  from clean_owns [OF o, of sh] show "clean sh l w \<noteq> None" by auto
  from print_owns [OF o, of sh os] show "print sh l w os \<noteq> None" by simp
  from LinkedList_copy_owns [OF o, of sh] show "LinkedList_copy sh l w \<noteq> None" by auto
qed

theorem peek_throws_iff_no_head_witness:
  "owns \<lparr>store = [Some \<lparr>element = 5 :: 32 word, ptrNext = None\<rparr>,
                   Some \<lparr>element = 7, ptrNext = Some 0\<rparr>], cout = [], dtor_depth = 0\<rparr>
        \<lparr>ptrHead = Some 1\<rparr> [(1, 7), (0, 5)] \<and>
   peek \<lparr>ptrHead = Some 1\<rparr>
        \<lparr>store = [Some \<lparr>element = 5 :: 32 word, ptrNext = None\<rparr>,
                   Some \<lparr>element = 7, ptrNext = Some 0\<rparr>], cout = [], dtor_depth = 0\<rparr> =
     Some (Inr 7, \<lparr>ptrHead = Some 1\<rparr>,
        \<lparr>store = [Some \<lparr>element = 5 :: 32 word, ptrNext = None\<rparr>,
                   Some \<lparr>element = 7, ptrNext = Some 0\<rparr>], cout = [], dtor_depth = 0\<rparr>) \<and>
   peek \<lparr>ptrHead = None\<rparr> \<lparr>store = [] :: 32 word Node option list, cout = [], dtor_depth = 0\<rparr> =
     Some (Inl EmptyContainer, \<lparr>ptrHead = None\<rparr>, \<lparr>store = [], cout = [], dtor_depth = 0\<rparr>)"
proof -
  let ?w = "\<lparr>store = [Some \<lparr>element = 5 :: 32 word, ptrNext = None\<rparr>,
                   Some \<lparr>element = 7, ptrNext = Some 0\<rparr>], cout = [], dtor_depth = 0\<rparr>"
  have h: "owns ?w \<lparr>ptrHead = Some 1\<rparr> [(1, 7), (0, 5)]"
    by (simp add: owns_def lookup_def)
  have e: "ptrHead \<lparr>ptrHead = None\<rparr> = None" by simp
  show ?thesis
    using h e
      peek_throws_iff_no_head [of "\<lparr>ptrHead = Some 1\<rparr>" ?w 1 7 "[(0, 5)]" "[(1, 7), (0, 5)]"]
      peek_throws_iff_no_head [of "\<lparr>ptrHead = None\<rparr>"
        "\<lparr>store = [] :: 32 word Node option list, cout = [], dtor_depth = 0\<rparr>"]
    by simp
qed

text \<open>
  C4. \<^verbatim>\<open>pop()\<close> on a list without head returns the list and the world as they are. On
  a list that owns the chain \<open>(a, v) # cs\<close> it returns with \<^verbatim>\<open>ptrHead\<close> set to the old
  head node's \<^verbatim>\<open>ptrNext\<close>; the list then owns \<open>cs\<close>, the tail of the sequence; the
  cell \<open>a\<close> of the old head is released and every other cell is as before; the one
  destructor message is that of \<open>v\<close>.
\<close>

theorem pop_noop_or_drops_head:
  "(ptrHead l = None \<longrightarrow> pop sh l w = Some (l, w)) \<and>
   (owns w l ((a, v) # cs) \<longrightarrow>
      (\<exists>n w'. lookup w a = Some n \<and>
         pop sh l w = Some (l\<lparr>ptrHead := ptrNext n\<rparr>, w') \<and>
         owns w' (l\<lparr>ptrHead := ptrNext n\<rparr>) cs \<and>
         store w' = (store w)[a := None] \<and>
         cout w' = cout w @ ''Destroying Node with data '' @ sh v @ endl \<and>
         dtor_depth w' = max (dtor_depth w) 1))"
proof (intro conjI impI)
  assume "ptrHead l = None"
  then show "pop sh l w = Some (l, w)" by (rule pop_empty)
next
  assume o: "owns w l ((a, v) # cs)"
  then obtain n where h: "ptrHead l = Some a" and n: "lookup w a = Some n"
    by (auto simp: owns_def split: option.splits)
  from owns_pop [OF o, of sh] obtain l' w' where
    p: "pop sh l w = Some (l', w')" and r: "owns w' l' cs"
      "store w' = (store w)[a := None]"
      "cout w' = cout w @ ''Destroying Node with data '' @ sh v @ endl"
      "dtor_depth w' = max (dtor_depth w) 1"
    by blast
  from p h have "l' = l\<lparr>ptrHead := ptrNext n\<rparr>"
    by (simp add: pop_def move_head_next_chain [OF h n])
  with n p r show "\<exists>n w'. lookup w a = Some n \<and>
         pop sh l w = Some (l\<lparr>ptrHead := ptrNext n\<rparr>, w') \<and>
         owns w' (l\<lparr>ptrHead := ptrNext n\<rparr>) cs \<and>
         store w' = (store w)[a := None] \<and>
         cout w' = cout w @ ''Destroying Node with data '' @ sh v @ endl \<and>
         dtor_depth w' = max (dtor_depth w) 1"
    by blast
qed

theorem pop_noop_or_drops_head_witness:
  "pop show_int \<lparr>ptrHead = None\<rparr>
       \<lparr>store = [None, None], cout = ''x'', dtor_depth = 1\<rparr> =
     Some (\<lparr>ptrHead = None\<rparr>, \<lparr>store = [None, None], cout = ''x'', dtor_depth = 1\<rparr>) \<and>
   owns \<lparr>store = [Some \<lparr>element = 5 :: 32 word, ptrNext = None\<rparr>,
                   Some \<lparr>element = 7, ptrNext = Some 0\<rparr>], cout = [], dtor_depth = 0\<rparr>
        \<lparr>ptrHead = Some 1\<rparr> [(1, 7), (0, 5)] \<and>
   (\<exists>w'. pop show_int \<lparr>ptrHead = Some 1\<rparr>
       \<lparr>store = [Some \<lparr>element = 5, ptrNext = None\<rparr>,
                  Some \<lparr>element = 7, ptrNext = Some 0\<rparr>], cout = [], dtor_depth = 0\<rparr> =
       Some (\<lparr>ptrHead = Some 0\<rparr>, w') \<and>
     owns w' \<lparr>ptrHead = Some 0\<rparr> [(0, 5)] \<and>
     store w' = [Some \<lparr>element = 5, ptrNext = None\<rparr>, None] \<and>
     cout w' = ''Destroying Node with data 7'' @ endl \<and> dtor_depth w' = 1)"
proof -
  let ?w = "\<lparr>store = [Some \<lparr>element = 5 :: 32 word, ptrNext = None\<rparr>,
                   Some \<lparr>element = 7, ptrNext = Some 0\<rparr>], cout = [], dtor_depth = 0\<rparr>"
  let ?e = "\<lparr>store = [None, None] :: 32 word Node option list, cout = ''x'', dtor_depth = 1\<rparr>"
  have h: "owns ?w \<lparr>ptrHead = Some 1\<rparr> [(1, 7), (0, 5)]"
    by (simp add: owns_def lookup_def)
  have e: "ptrHead \<lparr>ptrHead = None\<rparr> = None" by simp
  have s: "show_int 7 = ''7''"
    by (simp add: show_int_def show_nat.simps)
  from e pop_noop_or_drops_head [where l = "\<lparr>ptrHead = None\<rparr>" and sh = show_int and w = ?e]
  have 1: "pop show_int \<lparr>ptrHead = None\<rparr> ?e = Some (\<lparr>ptrHead = None\<rparr>, ?e)"
    by blast
  from h pop_noop_or_drops_head [where l = "\<lparr>ptrHead = Some 1\<rparr>" and sh = show_int
      and w = ?w and a = 1 and v = 7 and cs = "[(0, 5)]"]
  obtain n w' where "lookup ?w 1 = Some n"
    and "pop show_int \<lparr>ptrHead = Some 1\<rparr> ?w = Some (\<lparr>ptrHead = Some 1\<rparr>\<lparr>ptrHead := ptrNext n\<rparr>, w')"
    and "owns w' (\<lparr>ptrHead = Some 1\<rparr>\<lparr>ptrHead := ptrNext n\<rparr>) [(0, 5)]"
    and "store w' = (store ?w)[1 := None]"
    and "cout w' = cout ?w @ ''Destroying Node with data '' @ show_int 7 @ endl"
    and "dtor_depth w' = max (dtor_depth ?w) 1"
    by blast
  then have "pop show_int \<lparr>ptrHead = Some 1\<rparr> ?w = Some (\<lparr>ptrHead = Some 0\<rparr>, w') \<and>
     owns w' \<lparr>ptrHead = Some 0\<rparr> [(0, 5)] \<and>
     store w' = [Some \<lparr>element = 5, ptrNext = None\<rparr>, None] \<and>
     cout w' = ''Destroying Node with data 7'' @ endl \<and> dtor_depth w' = 1"
    by (auto simp: lookup_def s)
  with 1 h show ?thesis by blast
qed

text \<open>
  C5. Copy construction from a list that owns \<open>cs\<close> returns a new list that owns a
  chain \<open>cs'\<close> with the same values in the same order, at addresses none of which is an
  address of \<open>cs\<close>, while the source still owns \<open>cs\<close>. Afterwards any sequence \<open>ms\<close>
  of \<^verbatim>\<open>push\<close> and \<^verbatim>\<open>pop\<close> calls on either list returns, leaves that list with the
  values \<open>stack_after ms\<close> of the common sequence, and leaves the other list owning the
  chain it owned; the two chains stay disjoint, so this carries on to further mutations.
\<close>

theorem copy_is_deep_and_independent:
  assumes "owns w other cs"
  shows "\<exists>new w' cs'. LinkedList_copy sh other w = Some (new, other, w') \<and>
           owns w' new cs' \<and> map snd cs' = map snd cs \<and> owns w' other cs \<and>
           fst ` set cs' \<inter> fst ` set cs = {} \<and>
           (\<forall>ms. \<exists>l2 w2 cs2. mutate_all sh ms new w' = Some (l2, w2) \<and>
              owns w2 l2 cs2 \<and> map snd cs2 = stack_after ms (map snd cs) \<and>
              owns w2 other cs \<and> fst ` set cs2 \<inter> fst ` set cs = {}) \<and>
           (\<forall>ms. \<exists>l2 w2 cs2. mutate_all sh ms other w' = Some (l2, w2) \<and>
              owns w2 l2 cs2 \<and> map snd cs2 = stack_after ms (map snd cs) \<and>
              owns w2 new cs' \<and> fst ` set cs2 \<inter> fst ` set cs' = {})"
proof -
  from LinkedList_copy_owns [OF assms, of sh] obtain new w' cs' where
    c: "LinkedList_copy sh other w = Some (new, other, w')"
    and n: "owns w' new cs'" and v: "map snd cs' = map snd cs"
    and o: "owns w' other cs"
    and f: "\<forall>a \<in> fst ` set cs'. length (store w) \<le> a"
    by blast
  have d: "fst ` set cs' \<inter> fst ` set cs = {}"
  proof (rule ccontr)
    assume "fst ` set cs' \<inter> fst ` set cs \<noteq> {}"
    then obtain a where a': "a \<in> fst ` set cs'" and a: "a \<in> fst ` set cs" by blast
    from assms a have "a < length (store w)" by (rule owns_less)
    with f a' show False by auto
  qed
  then have d': "fst ` set cs \<inter> fst ` set cs' = {}" by blast
  have "\<exists>l2 w2 cs2. mutate_all sh ms new w' = Some (l2, w2) \<and>
              owns w2 l2 cs2 \<and> map snd cs2 = stack_after ms (map snd cs) \<and>
              owns w2 other cs \<and> fst ` set cs2 \<inter> fst ` set cs = {}" for ms
    using mutate_all_separate [OF n o d, of sh ms] by (simp add: v)
  moreover have "\<exists>l2 w2 cs2. mutate_all sh ms other w' = Some (l2, w2) \<and>
              owns w2 l2 cs2 \<and> map snd cs2 = stack_after ms (map snd cs) \<and>
              owns w2 new cs' \<and> fst ` set cs2 \<inter> fst ` set cs' = {}" for ms
    using mutate_all_separate [OF o n d', of sh ms] by simp
  ultimately show ?thesis
    using c n v o d by blast
qed

theorem copy_is_deep_and_independent_witness:
  "owns \<lparr>store = [Some \<lparr>element = 5 :: 32 word, ptrNext = None\<rparr>,
                   Some \<lparr>element = 7, ptrNext = Some 0\<rparr>], cout = [], dtor_depth = 0\<rparr>
        \<lparr>ptrHead = Some 1\<rparr> [(1, 7), (0, 5)] \<and>
   (\<exists>new w' cs'. LinkedList_copy show_int \<lparr>ptrHead = Some 1\<rparr>
        \<lparr>store = [Some \<lparr>element = 5 :: 32 word, ptrNext = None\<rparr>,
                   Some \<lparr>element = 7, ptrNext = Some 0\<rparr>], cout = [], dtor_depth = 0\<rparr> =
        Some (new, \<lparr>ptrHead = Some 1\<rparr>, w') \<and>
      owns w' new cs' \<and> map snd cs' = [7, 5] \<and>
      owns w' \<lparr>ptrHead = Some 1\<rparr> [(1, 7), (0, 5)] \<and>
      fst ` set cs' \<inter> {0, 1} = {} \<and>
      (\<exists>l2 w2 cs2. mutate_all show_int [Pop, Push 9] new w' = Some (l2, w2) \<and>
         owns w2 l2 cs2 \<and> map snd cs2 = [9, 5] \<and>
         owns w2 \<lparr>ptrHead = Some 1\<rparr> [(1, 7), (0, 5)]))"
proof -
  let ?w = "\<lparr>store = [Some \<lparr>element = 5 :: 32 word, ptrNext = None\<rparr>,
                   Some \<lparr>element = 7, ptrNext = Some 0\<rparr>], cout = [], dtor_depth = 0\<rparr>"
  let ?l = "\<lparr>ptrHead = Some 1\<rparr>"
  have h: "owns ?w ?l [(1, 7), (0, 5)]"
    by (simp add: owns_def lookup_def)
  from copy_is_deep_and_independent [OF h, where sh = show_int] obtain new w' cs' where
    1: "LinkedList_copy show_int ?l ?w = Some (new, ?l, w')"
      "owns w' new cs'" "map snd cs' = map snd [(1 :: nat, 7 :: 32 word), (0, 5)]"
      "owns w' ?l [(1, 7), (0, 5)]"
      "fst ` set cs' \<inter> fst ` set [(1 :: nat, 7 :: 32 word), (0, 5)] = {}"
    and 2: "\<forall>ms. \<exists>l2 w2 cs2. mutate_all show_int ms new w' = Some (l2, w2) \<and>
              owns w2 l2 cs2 \<and>
              map snd cs2 = stack_after ms (map snd [(1 :: nat, 7 :: 32 word), (0, 5)]) \<and>
              owns w2 ?l [(1, 7), (0, 5)] \<and>
              fst ` set cs2 \<inter> fst ` set [(1 :: nat, 7 :: 32 word), (0, 5)] = {}"
    by (elim exE conjE) (rule that; assumption)
  from 2 [rule_format, of "[Pop, Push 9]"] obtain l2 w2 cs2 where
    3: "mutate_all show_int [Pop, Push 9] new w' = Some (l2, w2)" "owns w2 l2 cs2"
      "map snd cs2 = stack_after [Pop, Push 9] (map snd [(1 :: nat, 7 :: 32 word), (0, 5)])"
      "owns w2 ?l [(1, 7), (0, 5)]"
    by (elim exE conjE) (rule that; assumption)
  from 1(3) have a: "map snd cs' = [7, 5]" by simp
  from 1(5) have b: "fst ` set cs' \<inter> {0, 1} = {}" by auto
  from 3(3) have c: "map snd cs2 = [9, 5]" by simp
  from 1(1,2,4) a b 3(1,2,4) c
  have "\<exists>new w' cs'. LinkedList_copy show_int ?l ?w = Some (new, ?l, w') \<and>
      owns w' new cs' \<and> map snd cs' = [7, 5] \<and>
      owns w' ?l [(1, 7), (0, 5)] \<and>
      fst ` set cs' \<inter> {0, 1} = {} \<and>
      (\<exists>l2 w2 cs2. mutate_all show_int [Pop, Push 9] new w' = Some (l2, w2) \<and>
         owns w2 l2 cs2 \<and> map snd cs2 = [9, 5] \<and>
         owns w2 ?l [(1, 7), (0, 5)])"
    by (intro exI conjI)
  with h show ?thesis by (rule conjI)
qed

text \<open>
  C6. Move construction from a list that owns \<open>cs\<close> leaves the world as it is; the new
  list has the source's head pointer and owns the very chain \<open>cs\<close> (the same nodes),
  and the source has no head: \<^verbatim>\<open>peek()\<close> on it throws \<open>EmptyContainer\<close>, \<^verbatim>\<open>pop()\<close>
  and \<^verbatim>\<open>clean()\<close> leave it as it is, \<^verbatim>\<open>print\<close> writes the end marker alone, and a
  \<^verbatim>\<open>push\<close> onto it gives a one-element list without touching the chain moved away.
\<close>

theorem move_transfers_chain:
  assumes "owns w list cs"
  shows "case LinkedList_move list w of
           (new, list', w') \<Rightarrow>
             w' = w \<and> ptrHead new = ptrHead list \<and> owns w' new cs \<and>
             ptrHead list' = None \<and> owns w' list' [] \<and>
             peek list' w' = Some (Inl EmptyContainer, list', w') \<and>
             pop sh list' w' = Some (list', w') \<and>
             clean sh list' w' = Some (list', w') \<and>
             print sh list' w' os = Some (os @ ''NULL'' @ endl, list', w') \<and>
             (case push v list' w' of
                (l2, w2) \<Rightarrow> owns w2 l2 [(length (store w'), v)] \<and> owns w2 new cs)"
proof -
  let ?new = "\<lparr>ptrHead = ptrHead list\<rparr>"
  let ?old = "list\<lparr>ptrHead := None\<rparr>"
  have new: "owns w ?new cs"
    using assms by (simp add: owns_def)
  have old: "owns w ?old []"
    by (simp add: owns_def)
  have pr: "print sh ?old w os = Some (os @ ''NULL'' @ endl, ?old, w)"
    using print_owns [OF old, of sh os] by (simp add: render_def)
  obtain l2 w2 where p: "push v ?old w = (l2, w2)"
    by (cases "push v ?old w")
  from old p have o2: "owns w2 l2 [(length (store w), v)]"
    by (rule owns_push)
  have n2: "owns w2 ?new cs"
    using new
  proof (rule owns_frame)
    fix a assume "a \<in> fst ` set cs"
    with new have "a < length (store w)" by (rule owns_less)
    then show "lookup w2 a = lookup w a" by (rule push_frame(2) [OF p])
  qed
  from new old pr p o2 n2 show ?thesis
    by (simp add: LinkedList_move_def peek_empty pop_empty)
qed

theorem move_transfers_chain_witness:
  "owns \<lparr>store = [Some \<lparr>element = 5 :: 32 word, ptrNext = None\<rparr>,
                   Some \<lparr>element = 7, ptrNext = Some 0\<rparr>], cout = [], dtor_depth = 0\<rparr>
        \<lparr>ptrHead = Some 1\<rparr> [(1, 7), (0, 5)] \<and>
   owns \<lparr>store = [Some \<lparr>element = 5 :: 32 word, ptrNext = None\<rparr>,
                   Some \<lparr>element = 7, ptrNext = Some 0\<rparr>], cout = [], dtor_depth = 0\<rparr>
        (fst (LinkedList_move \<lparr>ptrHead = Some 1\<rparr>
           \<lparr>store = [Some \<lparr>element = 5 :: 32 word, ptrNext = None\<rparr>,
                   Some \<lparr>element = 7, ptrNext = Some 0\<rparr>], cout = [], dtor_depth = 0\<rparr>))
        [(1, 7), (0, 5)] \<and>
   ptrHead (fst (snd (LinkedList_move \<lparr>ptrHead = Some 1\<rparr>
           \<lparr>store = [Some \<lparr>element = 5 :: 32 word, ptrNext = None\<rparr>,
                   Some \<lparr>element = 7, ptrNext = Some 0\<rparr>], cout = [], dtor_depth = 0\<rparr>))) = None"
proof -
  let ?w = "\<lparr>store = [Some \<lparr>element = 5 :: 32 word, ptrNext = None\<rparr>,
                   Some \<lparr>element = 7, ptrNext = Some 0\<rparr>], cout = [], dtor_depth = 0\<rparr>"
  have h: "owns ?w \<lparr>ptrHead = Some 1\<rparr> [(1, 7), (0, 5)]"
    by (simp add: owns_def lookup_def)
  show ?thesis
    using h move_transfers_chain [OF h, where sh = show_int and os = "[]" and v = 0]
    by (simp split: prod.splits)
qed

text \<open>
  C7. For every sequence \<open>vs\<close> (the empty one included), pushing its values onto an
  empty list and calling \<^verbatim>\<open>pop()\<close> \<open>length vs\<close> times returns with the empty list, and
  one more \<^verbatim>\<open>pop()\<close> returns the empty list and the world unchanged.
\<close>

theorem push_n_pop_n_empty:
  "case push_all vs LinkedList_default w of
     (l, w1) \<Rightarrow>
       (\<exists>w'. pop_times sh (length vs) l w1 = Some (LinkedList_default, w') \<and>
          pop sh LinkedList_default w' = Some (LinkedList_default, w') \<and>
          owns w' LinkedList_default [])"
proof -
  obtain l w1 where p: "push_all vs LinkedList_default w = (l, w1)"
    by (cases "push_all vs LinkedList_default w")
  have "owns w LinkedList_default []"
    by (simp add: owns_def LinkedList_default_def)
  from push_all_owns [OF this p] obtain cs' where
    o: "owns w1 l (cs' @ [])" and v: "map snd cs' = rev vs"
    by blast
  from v have len: "length cs' = length vs"
    by (metis length_map length_rev)
  from pop_times_owns [OF o, of sh] obtain l' w' where
    t: "pop_times sh (length cs') l w1 = Some (l', w')" and e: "owns w' l' []"
    by blast
  from e have "l' = LinkedList_default"
    by (simp add: owns_Nil LinkedList_default_def)
  with t e len p show ?thesis
    by (simp add: pop_empty LinkedList_default_def)
qed

theorem push_n_pop_n_empty_witness:
  "case push_all [1, 2, 3 :: 32 word] LinkedList_default
          \<lparr>store = [], cout = [], dtor_depth = 0\<rparr> of
     (l, w1) \<Rightarrow>
       (\<exists>w'. pop_times show_int (length [1, 2, 3 :: 32 word]) l w1 =
            Some (LinkedList_default, w') \<and>
          pop show_int LinkedList_default w' = Some (LinkedList_default, w') \<and>
          owns w' LinkedList_default [])"
  by (rule push_n_pop_n_empty)

text \<open>
  C8. The scenario of the driver, with \<^verbatim>\<open>int\<close> elements, from any world and on any
  stream \<open>os\<close>: after pushing 0, 1, ..., 9, \<^verbatim>\<open>print\<close> appends the line
  \<^verbatim>\<open>9 -> 8 -> 7 -> 6 -> 5 -> 4 -> 3 -> 2 -> 1 -> 0 -> NULL\<close> (ended by \<^verbatim>\<open>std::endl\<close>); three
  \<^verbatim>\<open>pop()\<close> calls later it appends \<^verbatim>\<open>6 -> 5 -> 4 -> 3 -> 2 -> 1 -> 0 -> NULL\<close> and
  \<^verbatim>\<open>peek()\<close> returns 6. For every element type, \<^verbatim>\<open>print\<close> on a list without head
  appends the line \<^verbatim>\<open>NULL\<close> alone, and whenever \<^verbatim>\<open>print\<close> returns, list and world are
  unchanged.
\<close>

theorem driver_display_scenario:
  "(case push_all [0, 1, 2, 3, 4, 5, 6, 7, 8, 9] LinkedList_default w of
      (l, w1) \<Rightarrow>
        print show_int l w1 os =
          Some (os @ ''9 -> 8 -> 7 -> 6 -> 5 -> 4 -> 3 -> 2 -> 1 -> 0 -> NULL'' @ endl, l, w1) \<and>
        (\<exists>l3 w3. pop_times show_int 3 l w1 = Some (l3, w3) \<and>
           print show_int l3 w3 os =
             Some (os @ ''6 -> 5 -> 4 -> 3 -> 2 -> 1 -> 0 -> NULL'' @ endl, l3, w3) \<and>
           peek l3 w3 = Some (Inr 6, l3, w3))) \<and>
   (ptrHead m = None \<longrightarrow> print sh m u out = Some (out @ ''NULL'' @ endl, m, u)) \<and>
   (\<forall>os' l' w'. print sh m u out = Some (os', l', w') \<longrightarrow> l' = m \<and> w' = u)"
proof (intro conjI impI allI)
  let ?vs = "[0, 1, 2, 3, 4, 5, 6, 7, 8, 9 :: 32 word]"
  obtain l w1 where p: "push_all ?vs LinkedList_default w = (l, w1)"
    by (cases "push_all ?vs LinkedList_default w")
  have "owns w LinkedList_default []"
    by (simp add: owns_def LinkedList_default_def)
  from push_all_owns [OF this p] obtain cs where
    o: "owns w1 l (cs @ [])" and v: "map snd cs = rev ?vs"
    by blast
  from o have o: "owns w1 l cs" by simp
  from v have v: "map snd cs = [9, 8, 7, 6, 5, 4, 3, 2, 1, 0]" by simp
  have 1: "print show_int l w1 os =
      Some (os @ ''9 -> 8 -> 7 -> 6 -> 5 -> 4 -> 3 -> 2 -> 1 -> 0 -> NULL'' @ endl, l, w1)"
    using print_owns [OF o, of show_int os]
    by (simp add: v render_def show_int_digits)
  from arg_cong [OF v, of length] have len: "length cs = 10"
    by simp
  have split: "cs = take 3 cs @ drop 3 cs" by simp
  from o have "owns w1 l (take 3 cs @ drop 3 cs)" by simp
  from pop_times_owns [OF this, of show_int] len obtain l3 w3 where
    t: "pop_times show_int 3 l w1 = Some (l3, w3)" and o3: "owns w3 l3 (drop 3 cs)"
    by auto
  have v3: "map snd (drop 3 cs) = [6, 5, 4, 3, 2, 1, 0]"
    using v by (simp add: drop_map [symmetric])
  have 2: "print show_int l3 w3 os =
      Some (os @ ''6 -> 5 -> 4 -> 3 -> 2 -> 1 -> 0 -> NULL'' @ endl, l3, w3)"
    using print_owns [OF o3, of show_int os]
    by (simp add: v3 render_def show_int_digits)
  from v3 obtain a rest where "drop 3 cs = (a, 6) # rest"
    by (cases "drop 3 cs") auto
  with o3 have 3: "peek l3 w3 = Some (Inr 6, l3, w3)"
    by (simp add: peek_owns)
  from 1 2 3 t p show "case push_all ?vs LinkedList_default w of
      (l, w1) \<Rightarrow>
        print show_int l w1 os =
          Some (os @ ''9 -> 8 -> 7 -> 6 -> 5 -> 4 -> 3 -> 2 -> 1 -> 0 -> NULL'' @ endl, l, w1) \<and>
        (\<exists>l3 w3. pop_times show_int 3 l w1 = Some (l3, w3) \<and>
           print show_int l3 w3 os =
             Some (os @ ''6 -> 5 -> 4 -> 3 -> 2 -> 1 -> 0 -> NULL'' @ endl, l3, w3) \<and>
           peek l3 w3 = Some (Inr 6, l3, w3))"
    by simp
next
  assume "ptrHead m = None"
  then show "print sh m u out = Some (out @ ''NULL'' @ endl, m, u)"
    by (rule print_empty)
next
  fix os' l' w' assume "print sh m u out = Some (os', l', w')"
  then show "l' = m" "w' = u" by (simp_all add: print_const)
qed

theorem driver_display_scenario_witness:
  "ptrHead \<lparr>ptrHead = None\<rparr> = None \<and>
   print show_int \<lparr>ptrHead = None\<rparr> \<lparr>store = [], cout = [], dtor_depth = 0\<rparr> [] =
     Some (''NULL'' @ endl, \<lparr>ptrHead = None\<rparr>, \<lparr>store = [], cout = [], dtor_depth = 0\<rparr>) \<and>
   (case push_all [0, 1, 2, 3, 4, 5, 6, 7, 8, 9] LinkedList_default
           \<lparr>store = [], cout = [], dtor_depth = 0\<rparr> of
      (l, w1) \<Rightarrow>
        print show_int l w1 [] =
          Some (''9 -> 8 -> 7 -> 6 -> 5 -> 4 -> 3 -> 2 -> 1 -> 0 -> NULL'' @ endl, l, w1))"
proof -
  have h: "ptrHead \<lparr>ptrHead = None\<rparr> = None" by simp
  note t = driver_display_scenario [where w = "\<lparr>store = [], cout = [], dtor_depth = 0\<rparr>"
      and os = "[]" and m = "\<lparr>ptrHead = None\<rparr>" and sh = show_int
      and u = "\<lparr>store = [], cout = [], dtor_depth = 0\<rparr>" and out = "[]"]
  from t h have "print show_int \<lparr>ptrHead = None\<rparr> \<lparr>store = [], cout = [], dtor_depth = 0\<rparr> [] =
     Some ([] @ ''NULL'' @ endl, \<lparr>ptrHead = None\<rparr>, \<lparr>store = [], cout = [], dtor_depth = 0\<rparr>)"
    by blast
  moreover from t have "case push_all [0, 1, 2, 3, 4, 5, 6, 7, 8, 9] LinkedList_default
           \<lparr>store = [], cout = [], dtor_depth = 0\<rparr> of
      (l, w1) \<Rightarrow>
        print show_int l w1 [] =
          Some ([] @ ''9 -> 8 -> 7 -> 6 -> 5 -> 4 -> 3 -> 2 -> 1 -> 0 -> NULL'' @ endl, l, w1)"
    by (auto split: prod.splits)
  ultimately show ?thesis
    using h by (simp only: append_Nil simp_thms)
qed

text \<open>
  C9. Copy construction returns the source object as it was passed in, the source owns
  the same chain afterwards (same nodes, same values, same length), and every cell of
  the store that existed before the call is unchanged: the store has only grown.
\<close>

theorem copy_leaves_source:
  assumes "owns w list cs"
  shows "\<exists>new w'. LinkedList_copy sh list w = Some (new, list, w') \<and>
           owns w' list cs \<and>
           take (length (store w)) (store w') = store w \<and>
           cout w' = cout w \<and> dtor_depth w' = dtor_depth w"
proof -
  from LinkedList_copy_owns [OF assms, of sh] obtain new w' where
    c: "LinkedList_copy sh list w = Some (new, list, w')" and o: "owns w' list cs"
    and f: "\<forall>a < length (store w). lookup w' a = lookup w a"
    and l: "length (store w) \<le> length (store w')"
    and e: "cout w' = cout w" "dtor_depth w' = dtor_depth w"
    by blast
  from f l have "take (length (store w)) (store w') = store w"
    by (rule store_prefix)
  with c o e show ?thesis by blast
qed

theorem copy_leaves_source_witness:
  "owns \<lparr>store = [Some \<lparr>element = 5 :: 32 word, ptrNext = None\<rparr>,
                   Some \<lparr>element = 7, ptrNext = Some 0\<rparr>], cout = [], dtor_depth = 0\<rparr>
        \<lparr>ptrHead = Some 1\<rparr> [(1, 7), (0, 5)] \<and>
   (\<exists>new w'. LinkedList_copy show_int \<lparr>ptrHead = Some 1\<rparr>
        \<lparr>store = [Some \<lparr>element = 5 :: 32 word, ptrNext = None\<rparr>,
                   Some \<lparr>element = 7, ptrNext = Some 0\<rparr>], cout = [], dtor_depth = 0\<rparr> =
        Some (new, \<lparr>ptrHead = Some 1\<rparr>, w') \<and>
      owns w' \<lparr>ptrHead = Some 1\<rparr> [(1, 7), (0, 5)] \<and>
      take 2 (store w') = [Some \<lparr>element = 5, ptrNext = None\<rparr>,
                           Some \<lparr>element = 7, ptrNext = Some 0\<rparr>])"
proof -
  let ?w = "\<lparr>store = [Some \<lparr>element = 5 :: 32 word, ptrNext = None\<rparr>,
                   Some \<lparr>element = 7, ptrNext = Some 0\<rparr>], cout = [], dtor_depth = 0\<rparr>"
  have h: "owns ?w \<lparr>ptrHead = Some 1\<rparr> [(1, 7), (0, 5)]"
    by (simp add: owns_def lookup_def)
  from copy_leaves_source [OF h, where sh = show_int] obtain new w' where
    "LinkedList_copy show_int \<lparr>ptrHead = Some 1\<rparr> ?w = Some (new, \<lparr>ptrHead = Some 1\<rparr>, w')"
    and "owns w' \<lparr>ptrHead = Some 1\<rparr> [(1, 7), (0, 5)]"
    and "take (length (store ?w)) (store w') = store ?w"
    by blast
  with h show ?thesis by (auto simp: numeral_2_eq_2)
qed

text \<open>
  C10. Copy construction from a list without head returns a list without head and leaves
  source and world unchanged; \<^verbatim>\<open>peek()\<close> on the new list throws \<open>EmptyContainer\<close> and
  \<^verbatim>\<open>print\<close> appends the line \<^verbatim>\<open>NULL\<close> alone.
\<close>

theorem copy_of_empty_is_empty:
  assumes "ptrHead list = None"
  shows "LinkedList_copy sh list w = Some (LinkedList_default, list, w) \<and>
         ptrHead LinkedList_default = None \<and>
         peek LinkedList_default w = Some (Inl EmptyContainer, LinkedList_default, w) \<and>
         print sh LinkedList_default w os = Some (os @ ''NULL'' @ endl, LinkedList_default, w)"
proof -
  from assms have "copy_loop sh w None None (ptrHead list) = Some (w, None)"
    by (subst copy_loop.simps) simp
  then have "LinkedList_copy sh list w = Some (LinkedList_default, list, w)"
    by (simp add: LinkedList_copy_def LinkedList_default_def)
  moreover have "print_loop sh w None os = Some os"
    by (subst print_loop.simps) simp
  then have "print sh LinkedList_default w os = Some (os @ ''NULL'' @ endl, LinkedList_default, w)"
    by (simp add: print_def LinkedList_default_def)
  ultimately show ?thesis
    by (simp add: peek_def LinkedList_default_def)
qed

theorem copy_of_empty_is_empty_witness:
  "ptrHead \<lparr>ptrHead = None\<rparr> = None \<and>
   LinkedList_copy show_int \<lparr>ptrHead = None\<rparr>
       \<lparr>store = [Some \<lparr>element = 5, ptrNext = None\<rparr>], cout = [], dtor_depth = 0\<rparr> =
     Some (\<lparr>ptrHead = None\<rparr>, \<lparr>ptrHead = None\<rparr>,
       \<lparr>store = [Some \<lparr>element = 5, ptrNext = None\<rparr>], cout = [], dtor_depth = 0\<rparr>) \<and>
   print show_int \<lparr>ptrHead = None\<rparr>
       \<lparr>store = [Some \<lparr>element = 5, ptrNext = None\<rparr>], cout = [], dtor_depth = 0\<rparr> [] =
     Some (''NULL'' @ endl, \<lparr>ptrHead = None\<rparr>,
       \<lparr>store = [Some \<lparr>element = 5, ptrNext = None\<rparr>], cout = [], dtor_depth = 0\<rparr>)"
proof -
  have h: "ptrHead \<lparr>ptrHead = None\<rparr> = None" by simp
  show ?thesis
    using h copy_of_empty_is_empty [OF h, where sh = show_int and os = "[]"
        and w = "\<lparr>store = [Some \<lparr>element = 5, ptrNext = None\<rparr>], cout = [], dtor_depth = 0\<rparr>"]
    by (simp add: LinkedList_default_def)
qed

end
